theory Spec2Isabelle
  imports Main "HOL-Library.Word" "HOL-Library.Sublist"
begin

section \<open>SerialLink: the serial session manager and the streaming reader\<close>

text \<open>
  A shallow embedding of the Go package \<^verbatim>\<open>internal/serial\<close> (types, manager, scanner,
  reader) and of the \<^verbatim>\<open>Read\<close> handler of the gRPC facade.  Go's \<^verbatim>\<open>int\<close> is modelled as
  \<open>int\<close> where no arithmetic is done on it, \<^verbatim>\<open>uint64\<close> and \<^verbatim>\<open>uint32\<close> as \<open>64 word\<close> and
  \<open>32 word\<close>, a Go string as a \<open>string\<close> of bytes, a Go map as a partial function, a
  pointer to a \<^verbatim>\<open>Session\<close> as an index into a heap and a channel as an index into a
  store of channels.  What the driver library, the clock and the UUID generator answer
  is an explicit argument of the operation that asks.
\<close>

subsection \<open>Errors (errors.go)\<close>

text \<open>
  The sentinel errors of the package, \<open>Wrap\<close> for \<^verbatim>\<open>fmt.Errorf("...: %w", err)\<close>,
  \<open>DriverError\<close> for an error value of the serial library, and \<open>Panic\<close> for a run-time
  panic of the Go program (nil dereference, close of a closed channel, send on a closed
  channel).
\<close>

datatype error =
    ErrNotOpen
  | ErrPortNotFound
  | ErrPortAlreadyOpen
  | ErrPortNotOpen
  | ErrPortLocked
  | ErrInvalidSession
  | ErrInvalidConfig
  | ErrWriteTimeout
  | ErrReadTimeout
  | ErrPortClosed
  | DriverError string
  | Wrap string error
  | Panic string

text \<open>\<^verbatim>\<open>errors.Is(err, target)\<close>: \<open>err\<close> or an error it wraps is \<open>target\<close>.\<close>

fun errors_Is :: "error \<Rightarrow> error \<Rightarrow> bool" where
  "errors_Is (Wrap m e) t = (Wrap m e = t \<or> errors_Is e t)"
| "errors_Is e t = (e = t)"

subsection \<open>Port configuration (types.go)\<close>

text \<open>
  \<^verbatim>\<open>Parity\<close>, \<^verbatim>\<open>StopBits\<close> and \<^verbatim>\<open>FlowControl\<close> are named \<^verbatim>\<open>int\<close> types with \<^verbatim>\<open>iota\<close>
  constants: a value of the type is any \<^verbatim>\<open>int\<close>, which is why \<^verbatim>\<open>Validate\<close> checks ranges.
\<close>

definition ParityNone :: int where "ParityNone = 0"
definition ParityOdd :: int where "ParityOdd = 1"
definition ParityEven :: int where "ParityEven = 2"
definition ParityMark :: int where "ParityMark = 3"
definition ParitySpace :: int where "ParitySpace = 4"

definition StopBits1 :: int where "StopBits1 = 0"
definition StopBits1Half :: int where "StopBits1Half = 1"
definition StopBits2 :: int where "StopBits2 = 2"

definition FlowControlNone :: int where "FlowControlNone = 0"
definition FlowControlHardware :: int where "FlowControlHardware = 1"
definition FlowControlSoftware :: int where "FlowControlSoftware = 2"

record PortConfig =
  BaudRate :: int
  DataBits :: int
  StopBits :: int
  Parity :: int
  FlowControl :: int
  ReadTimeoutMs :: int
  WriteTimeoutMs :: int

definition DefaultConfig :: PortConfig where
  "DefaultConfig =
     \<lparr>BaudRate = 9600, DataBits = 8, StopBits = StopBits1, Parity = ParityNone,
      FlowControl = FlowControlNone, ReadTimeoutMs = 1000, WriteTimeoutMs = 1000\<rparr>"

text \<open>The keys of the map literal \<^verbatim>\<open>validBaudRates\<close>; a missing key reads as \<^verbatim>\<open>false\<close>.\<close>

definition validBaudRates :: "int list" where
  "validBaudRates =
     [300, 600, 1200, 2400, 4800, 9600, 19200, 38400, 57600, 115200, 230400, 460800, 921600]"

text \<open>
  \<^verbatim>\<open>PortConfig.Validate\<close>: \<open>None\<close> is \<^verbatim>\<open>nil\<close>.  Each error wraps \<^verbatim>\<open>ErrInvalidConfig\<close>; the
  message keeps the text of the format string up to its first verb.
\<close>

definition Validate :: "PortConfig \<Rightarrow> error option" where
  "Validate c =
     (if BaudRate c < 1 then
        Some (Wrap ''baud rate must be positive'' ErrInvalidConfig)
      else if \<not> (BaudRate c \<in> set validBaudRates) \<and> BaudRate c < 300 then
        Some (Wrap ''baud rate is too low'' ErrInvalidConfig)
      else if DataBits c < 5 \<or> DataBits c > 8 then
        Some (Wrap ''data bits must be 5-8'' ErrInvalidConfig)
      else if StopBits c < StopBits1 \<or> StopBits c > StopBits2 then
        Some (Wrap ''invalid stop bits value'' ErrInvalidConfig)
      else if Parity c < ParityNone \<or> Parity c > ParitySpace then
        Some (Wrap ''invalid parity value'' ErrInvalidConfig)
      else if FlowControl c < FlowControlNone \<or> FlowControl c > FlowControlSoftware then
        Some (Wrap ''invalid flow control value'' ErrInvalidConfig)
      else None)"

text \<open>
  The domain of a configuration in the words of the specification (section 3): a positive
  baud rate that is not below 300, data bits in 5..8, the three enumerations within
  their values, and both timeouts non-negative.
\<close>

definition spec_config_domain :: "PortConfig \<Rightarrow> bool" where
  "spec_config_domain c =
     (0 < BaudRate c \<and> \<not> BaudRate c < 300
      \<and> DataBits c \<in> {5, 6, 7, 8}
      \<and> StopBits c \<in> {StopBits1, StopBits1Half, StopBits2}
      \<and> Parity c \<in> {ParityNone, ParityOdd, ParityEven, ParityMark, ParitySpace}
      \<and> FlowControl c \<in> {FlowControlNone, FlowControlHardware, FlowControlSoftware}
      \<and> 0 \<le> ReadTimeoutMs c \<and> 0 \<le> WriteTimeoutMs c)"

subsection \<open>Channels\<close>

text \<open>
  A buffered Go channel: the queued values (oldest first), the capacity and whether it
  was closed.  Channels live in a store; a channel value is an index into it, and an
  index outside the store is the \<^verbatim>\<open>nil\<close> channel.
\<close>

record 'a chan =
  chan_buf :: "'a list"
  chan_cap :: nat
  chan_closed :: bool

definition make_chan :: "nat \<Rightarrow> 'a chan" where
  "make_chan n = \<lparr>chan_buf = [], chan_cap = n, chan_closed = False\<rparr>"

text \<open>
  \<^verbatim>\<open>for _, ch := range chs { close(ch) }\<close>.  Closing a closed channel or the \<^verbatim>\<open>nil\<close>
  channel panics: the second component is \<open>False\<close> then, and the store is as the loop
  left it.
\<close>

fun close_chans :: "'a chan list \<Rightarrow> nat list \<Rightarrow> 'a chan list \<times> bool" where
  "close_chans cs [] = (cs, True)"
| "close_chans cs (c # rest) =
     (if c < length cs \<and> \<not> chan_closed (cs ! c)
      then close_chans (cs[c := (cs ! c)\<lparr>chan_closed := True\<rparr>]) rest
      else (cs, False))"

text \<open>
  \<^verbatim>\<open>for _, ch := range chs { select { case ch <- v: default: } }\<close>.  A send on a closed
  channel panics (second component \<open>False\<close>); a full channel and the \<^verbatim>\<open>nil\<close> channel take
  the \<^verbatim>\<open>default\<close> branch; otherwise the value is queued.
\<close>

fun try_send_all :: "'a chan list \<Rightarrow> nat list \<Rightarrow> 'a \<Rightarrow> 'a chan list \<times> bool" where
  "try_send_all cs [] v = (cs, True)"
| "try_send_all cs (c # rest) v =
     (if c < length cs then
        (if chan_closed (cs ! c) then (cs, False)
         else if length (chan_buf (cs ! c)) < chan_cap (cs ! c)
         then try_send_all (cs[c := (cs ! c)\<lparr>chan_buf := chan_buf (cs ! c) @ [v]\<rparr>]) rest v
         else try_send_all cs rest v)
      else try_send_all cs rest v)"

text \<open>A consumer's \<^verbatim>\<open><-ch\<close> that finds a queued value: the oldest one leaves the queue.\<close>

definition chan_recv :: "'a chan list \<Rightarrow> nat \<Rightarrow> 'a chan list" where
  "chan_recv cs c =
     (if c < length cs then cs[c := (cs ! c)\<lparr>chan_buf := tl (chan_buf (cs ! c))\<rparr>] else cs)"

subsection \<open>Sessions and the manager (manager.go)\<close>

type_synonym byte = "8 word"

record PortStatistics =
  BytesSent :: "64 word"
  BytesReceived :: "64 word"
  Errors :: "64 word"
  OpenedAt :: nat
  LastActivity :: nat

text \<open>
  \<^verbatim>\<open>Session\<close>: \<open>port\<close> is the driver handle (\<open>None\<close> is a \<^verbatim>\<open>nil\<close> interface), \<open>closed\<close> the
  atomic flag, \<open>readers\<close> the subscriber channels.  The two mutexes are not modelled:
  operations are executed one at a time.
\<close>

record Session =
  ID :: string
  PortName :: string
  ClientID :: string
  Exclusive :: bool
  Config :: PortConfig
  Statistics :: PortStatistics
  port :: "nat option"
  closed :: bool
  readers :: "nat list"

text \<open>
  \<^verbatim>\<open>Manager\<close>, with the memory its pointers refer to: \<open>sessions\<close> and \<open>sessionsByID\<close> map
  to \<^verbatim>\<open>*Session\<close>, an index into \<open>heap\<close> (an index outside the heap is a \<^verbatim>\<open>nil\<close> pointer);
  \<open>chans\<close> is the store of the subscriber channels.
\<close>

record Manager =
  sessions :: "string \<rightharpoonup> nat"
  sessionsByID :: "string \<rightharpoonup> nat"
  allowSharedAccess :: bool
  defaultConfig :: PortConfig
  heap :: "Session list"
  chans :: "byte list chan list"

definition NewManager :: "bool \<Rightarrow> PortConfig \<Rightarrow> Manager" where
  "NewManager allow cfg =
     \<lparr>sessions = Map.empty, sessionsByID = Map.empty, allowSharedAccess = allow,
      defaultConfig = cfg, heap = [], chans = []\<rparr>"

definition session_at :: "Manager \<Rightarrow> nat \<Rightarrow> Session option" where
  "session_at m p = (if p < length (heap m) then Some (heap m ! p) else None)"

definition upd_session :: "Manager \<Rightarrow> nat \<Rightarrow> (Session \<Rightarrow> Session) \<Rightarrow> Manager" where
  "upd_session m p f = m\<lparr>heap := (heap m)[p := f (heap m ! p)]\<rparr>"

definition nil_deref :: error where
  "nil_deref = Panic ''invalid memory address or nil pointer dereference''"

text \<open>
  What the outside world answers during \<^verbatim>\<open>OpenPort\<close>: \<^verbatim>\<open>serial.Open\<close> (an error message or
  a handle), \<^verbatim>\<open>port.SetReadTimeout\<close> (an error message or \<^verbatim>\<open>nil\<close>), \<^verbatim>\<open>uuid.New().String()\<close>
  and \<^verbatim>\<open>time.Now()\<close> (one reading stands for the two the code takes).
\<close>

record OpenEnv =
  serial_Open :: "string + nat"
  SetReadTimeout_err :: "string option"
  uuid_New :: string
  time_Now :: nat

text \<open>\<^verbatim>\<open>Manager.OpenPort\<close>; the result is the error or the pointer to the new session.\<close>

definition OpenPort ::
  "Manager \<Rightarrow> string \<Rightarrow> PortConfig \<Rightarrow> string \<Rightarrow> bool \<Rightarrow> OpenEnv \<Rightarrow> (error + nat) \<times> Manager" where
  "OpenPort m portName config clientID exclusive env =
     (case Validate config of
        Some err \<Rightarrow> (Inl err, m)
      | None \<Rightarrow>
         (case (case sessions m portName of
                  None \<Rightarrow> None
                | Some q \<Rightarrow>
                   (case session_at m q of
                      None \<Rightarrow> Some nil_deref
                    | Some existingSession \<Rightarrow>
                        if Exclusive existingSession \<or> exclusive \<or> \<not> allowSharedAccess m
                        then Some ErrPortLocked else None)) of
            Some err \<Rightarrow> (Inl err, m)
          | None \<Rightarrow>
             (case serial_Open env of
                Inl msg \<Rightarrow> (Inl (Wrap ''failed to open port'' (DriverError msg)), m)
              | Inr h \<Rightarrow>
                 (case (if ReadTimeoutMs config > 0 then SetReadTimeout_err env else None) of
                    Some msg \<Rightarrow> (Inl (Wrap ''failed to set read timeout'' (DriverError msg)), m)
                  | None \<Rightarrow>
                     (let session =
                            \<lparr>ID = uuid_New env, PortName = portName, ClientID = clientID,
                             Exclusive = exclusive, Config = config,
                             Statistics =
                               \<lparr>BytesSent = 0, BytesReceived = 0, Errors = 0,
                                OpenedAt = time_Now env, LastActivity = time_Now env\<rparr>,
                             port = Some h, closed = False, readers = []\<rparr>;
                          p = length (heap m)
                      in (Inr p,
                          m\<lparr>heap := heap m @ [session],
                            sessions := (sessions m)(portName \<mapsto> p),
                            sessionsByID := (sessionsByID m)(ID session \<mapsto> p)\<rparr>))))))"

text \<open>
  \<^verbatim>\<open>Manager.closeSessionLocked\<close>; \<open>close_err\<close> is what the driver's \<^verbatim>\<open>Close\<close> answers when
  it is called.
\<close>

definition closeSessionLocked :: "Manager \<Rightarrow> nat \<Rightarrow> string option \<Rightarrow> error option \<times> Manager" where
  "closeSessionLocked m p close_err =
     (case session_at m p of
        None \<Rightarrow> (Some nil_deref, m)
      | Some session \<Rightarrow>
         (let m1 = upd_session m p (\<lambda>s. s\<lparr>closed := True\<rparr>) in
          (case close_chans (chans m1) (readers session) of
             (cs, False) \<Rightarrow> (Some (Panic ''close of closed channel''), m1\<lparr>chans := cs\<rparr>)
           | (cs, True) \<Rightarrow>
              (let m2 = upd_session (m1\<lparr>chans := cs\<rparr>) p (\<lambda>s. s\<lparr>readers := []\<rparr>);
                   err = (case port session of
                            None \<Rightarrow> None
                          | Some h \<Rightarrow> map_option DriverError close_err)
               in (err,
                   m2\<lparr>sessions := (sessions m2)(PortName session := None),
                      sessionsByID := (sessionsByID m2)(ID session := None)\<rparr>)))))"

text \<open>\<^verbatim>\<open>Manager.ClosePort\<close>.\<close>

definition ClosePort :: "Manager \<Rightarrow> string \<Rightarrow> string \<Rightarrow> string option \<Rightarrow> error option \<times> Manager" where
  "ClosePort m portName sessionID close_err =
     (case sessions m portName of
        None \<Rightarrow> (Some ErrPortNotOpen, m)
      | Some p \<Rightarrow>
         (case session_at m p of
            None \<Rightarrow> (Some nil_deref, m)
          | Some session \<Rightarrow>
              if ID session \<noteq> sessionID then (Some ErrInvalidSession, m)
              else closeSessionLocked m p close_err))"

text \<open>\<^verbatim>\<open>Manager.ValidateSession\<close>; it reads only.\<close>

definition ValidateSession :: "Manager \<Rightarrow> string \<Rightarrow> string \<Rightarrow> error + nat" where
  "ValidateSession m portName sessionID =
     (case sessions m portName of
        None \<Rightarrow> Inl ErrPortNotOpen
      | Some p \<Rightarrow>
         (case session_at m p of
            None \<Rightarrow> Inl nil_deref
          | Some session \<Rightarrow>
              if ID session \<noteq> sessionID then Inl ErrInvalidSession
              else if closed session then Inl ErrPortClosed
              else Inr p))"

text \<open>
  \<^verbatim>\<open>Manager.Write\<close>.  \<open>n\<close> and \<open>werr\<close> are what the driver's \<^verbatim>\<open>Write(data)\<close> returns (a Go
  \<^verbatim>\<open>int\<close> and an error message or \<^verbatim>\<open>nil\<close>), \<open>now\<close> is \<^verbatim>\<open>time.Now()\<close>.  \<^verbatim>\<open>uint64(n)\<close> is
  \<open>word_of_int n\<close>, and \<^verbatim>\<open>atomic.AddUint64\<close> is the addition of \<open>64 word\<close>, which wraps.
\<close>

definition Write ::
  "Manager \<Rightarrow> string \<Rightarrow> string \<Rightarrow> byte list \<Rightarrow> int \<Rightarrow> string option \<Rightarrow> nat
     \<Rightarrow> (int \<times> error option) \<times> Manager" where
  "Write m portName sessionID data n werr now =
     (case ValidateSession m portName sessionID of
        Inl err \<Rightarrow> ((0, Some err), m)
      | Inr p \<Rightarrow>
         (case port (heap m ! p) of
            None \<Rightarrow> ((0, Some nil_deref), m)
          | Some h \<Rightarrow>
             (case werr of
                Some msg \<Rightarrow>
                  ((n, Some (Wrap ''write failed'' (DriverError msg))),
                   upd_session m p
                     (\<lambda>s. s\<lparr>Statistics := (Statistics s)\<lparr>Errors := Errors (Statistics s) + 1\<rparr>\<rparr>))
              | None \<Rightarrow>
                  ((n, None),
                   upd_session m p
                     (\<lambda>s. s\<lparr>Statistics := (Statistics s)
                              \<lparr>BytesSent := BytesSent (Statistics s) + word_of_int n,
                               LastActivity := now\<rparr>\<rparr>)))))"

text \<open>
  \<^verbatim>\<open>Manager.Read\<close>.  \<open>input\<close> is what the line holds and \<open>rerr\<close> the driver's error: the
  driver fills at most \<^verbatim>\<open>len(buffer)\<close> bytes, so \<^verbatim>\<open>buffer[:n]\<close> is \<open>take maxBytes input\<close>.
  \<^verbatim>\<open>make([]byte, maxBytes)\<close> panics on a negative length.
\<close>

definition Read ::
  "Manager \<Rightarrow> string \<Rightarrow> string \<Rightarrow> int \<Rightarrow> byte list \<Rightarrow> string option \<Rightarrow> nat
     \<Rightarrow> (byte list \<times> error option) \<times> Manager" where
  "Read m portName sessionID maxBytes input rerr now =
     (case ValidateSession m portName sessionID of
        Inl err \<Rightarrow> (([], Some err), m)
      | Inr p \<Rightarrow>
         if maxBytes < 0 then (([], Some (Panic ''makeslice: len out of range'')), m)
         else
         (case port (heap m ! p) of
            None \<Rightarrow> (([], Some nil_deref), m)
          | Some h \<Rightarrow>
             (case rerr of
                Some msg \<Rightarrow>
                  (([], Some (Wrap ''read failed'' (DriverError msg))),
                   upd_session m p
                     (\<lambda>s. s\<lparr>Statistics := (Statistics s)\<lparr>Errors := Errors (Statistics s) + 1\<rparr>\<rparr>))
              | None \<Rightarrow>
                  (let data = take (nat maxBytes) input;
                       m1 = upd_session m p
                              (\<lambda>s. s\<lparr>Statistics := (Statistics s)
                                 \<lparr>BytesReceived := BytesReceived (Statistics s) + of_nat (length data),
                                  LastActivity := now\<rparr>\<rparr>)
                   in if length data > 0 then
                        (case try_send_all (chans m1) (readers (heap m1 ! p)) data of
                           (cs, False) \<Rightarrow>
                             (([], Some (Panic ''send on closed channel'')), m1\<lparr>chans := cs\<rparr>)
                         | (cs, True) \<Rightarrow> ((data, None), m1\<lparr>chans := cs\<rparr>))
                      else ((data, None), m1)))))"

text \<open>
  \<^verbatim>\<open>Manager.Configure\<close>; \<open>mode_err\<close> and \<open>timeout_err\<close> are the driver's answers to
  \<^verbatim>\<open>SetMode\<close> and \<^verbatim>\<open>SetReadTimeout\<close>.
\<close>

definition Configure ::
  "Manager \<Rightarrow> string \<Rightarrow> string \<Rightarrow> PortConfig \<Rightarrow> string option \<Rightarrow> string option
     \<Rightarrow> error option \<times> Manager" where
  "Configure m portName sessionID config mode_err timeout_err =
     (case ValidateSession m portName sessionID of
        Inl err \<Rightarrow> (Some err, m)
      | Inr p \<Rightarrow>
         (case Validate config of
            Some err \<Rightarrow> (Some err, m)
          | None \<Rightarrow>
             (case port (heap m ! p) of
                None \<Rightarrow> (Some nil_deref, m)
              | Some h \<Rightarrow>
                 (case mode_err of
                    Some msg \<Rightarrow> (Some (Wrap ''failed to configure port'' (DriverError msg)), m)
                  | None \<Rightarrow>
                     (case (if ReadTimeoutMs config > 0 then timeout_err else None) of
                        Some msg \<Rightarrow>
                          (Some (Wrap ''failed to set read timeout'' (DriverError msg)), m)
                      | None \<Rightarrow> (None, upd_session m p (\<lambda>s. s\<lparr>Config := config\<rparr>)))))))"

text \<open>\<^verbatim>\<open>Manager.GetSession\<close>, \<^verbatim>\<open>Manager.GetSessionByID\<close> and \<^verbatim>\<open>Manager.GetStatus\<close>.\<close>

definition GetSession :: "Manager \<Rightarrow> string \<Rightarrow> nat option" where
  "GetSession m portName = sessions m portName"

definition GetSessionByID :: "Manager \<Rightarrow> string \<Rightarrow> nat option" where
  "GetSessionByID m sessionID = sessionsByID m sessionID"

definition GetStatus :: "Manager \<Rightarrow> string \<Rightarrow> error + nat" where
  "GetStatus m portName =
     (case sessions m portName of None \<Rightarrow> Inl ErrPortNotOpen | Some p \<Rightarrow> Inr p)"

text \<open>
  \<^verbatim>\<open>Manager.CloseAll\<close>.  Go ranges over the map in an order of its choosing, given here as
  the list \<open>order\<close> of the keys; a key deleted before the loop reaches it is not visited.
  The driver's answer to \<^verbatim>\<open>Close\<close> is discarded by the code.  The result is \<open>Some\<close> of a
  panic when one stops the loop.
\<close>

fun CloseAll :: "Manager \<Rightarrow> string list \<Rightarrow> error option \<times> Manager" where
  "CloseAll m [] = (None, m)"
| "CloseAll m (portName # order) =
     (case sessions m portName of
        None \<Rightarrow> CloseAll m order
      | Some p \<Rightarrow>
         (case closeSessionLocked m p None of
            (Some err, m') \<Rightarrow> (Some err, m')
          | (None, m') \<Rightarrow> CloseAll m' order))"

text \<open>\<^verbatim>\<open>Manager.SubscribeToReads\<close>: the result is the new channel.\<close>

definition SubscribeToReads :: "Manager \<Rightarrow> string \<Rightarrow> string \<Rightarrow> (error + nat) \<times> Manager" where
  "SubscribeToReads m portName sessionID =
     (case ValidateSession m portName sessionID of
        Inl err \<Rightarrow> (Inl err, m)
      | Inr p \<Rightarrow>
         (let ch = length (chans m);
              m1 = m\<lparr>chans := chans m @ [make_chan 100]\<rparr>
          in (Inr ch, upd_session m1 p (\<lambda>s. s\<lparr>readers := readers s @ [ch]\<rparr>))))"

text \<open>
  \<^verbatim>\<open>Manager.UnsubscribeFromReads\<close>: the first entry equal to \<open>ch\<close> is closed and removed.
\<close>

definition UnsubscribeFromReads ::
  "Manager \<Rightarrow> string \<Rightarrow> string \<Rightarrow> nat \<Rightarrow> error option \<times> Manager" where
  "UnsubscribeFromReads m portName sessionID ch =
     (case ValidateSession m portName sessionID of
        Inl err \<Rightarrow> (Some err, m)
      | Inr p \<Rightarrow>
         if ch \<in> set (readers (heap m ! p)) then
           (case close_chans (chans m) [ch] of
              (cs, False) \<Rightarrow> (Some (Panic ''close of closed channel''), m)
            | (cs, True) \<Rightarrow>
                (None, upd_session (m\<lparr>chans := cs\<rparr>) p (\<lambda>s. s\<lparr>readers := remove1 ch (readers s)\<rparr>)))
         else (None, m))"

text \<open>
  \<^verbatim>\<open>Manager.Flush\<close>; \<open>in_err\<close> and \<open>out_err\<close> are the driver's answers to
  \<^verbatim>\<open>ResetInputBuffer\<close> and \<^verbatim>\<open>ResetOutputBuffer\<close>.  The manager's state is not written.
\<close>

definition Flush ::
  "Manager \<Rightarrow> string \<Rightarrow> string \<Rightarrow> string option \<Rightarrow> string option \<Rightarrow> error option" where
  "Flush m portName sessionID in_err out_err =
     (case ValidateSession m portName sessionID of
        Inl err \<Rightarrow> Some err
      | Inr p \<Rightarrow>
         (case port (heap m ! p) of
            None \<Rightarrow> Some nil_deref
          | Some h \<Rightarrow>
             (case in_err of
                Some msg \<Rightarrow> Some (Wrap ''failed to reset input buffer'' (DriverError msg))
              | None \<Rightarrow>
                 (case out_err of
                    Some msg \<Rightarrow> Some (Wrap ''failed to reset output buffer'' (DriverError msg))
                  | None \<Rightarrow> None))))"

subsection \<open>Runs of the manager\<close>

text \<open>
  One call of a manager operation, with the answers of the outside world it consumes,
  or a subscriber taking a value off its channel.  A run executes calls one after the
  other, which is how the manager's writer guard and the per-session mutex order them.
\<close>

datatype call =
    CallOpenPort string PortConfig string bool OpenEnv
  | CallClosePort string string "string option"
  | CallCloseAll "string list"
  | CallWrite string string "byte list" int "string option" nat
  | CallRead string string int "byte list" "string option" nat
  | CallConfigure string string PortConfig "string option" "string option"
  | CallSubscribeToReads string string
  | CallUnsubscribeFromReads string string nat
  | CallFlush string string "string option" "string option"
  | Receive nat

fun step :: "Manager \<Rightarrow> call \<Rightarrow> Manager" where
  "step m (CallOpenPort portName config clientID exclusive env) =
     snd (OpenPort m portName config clientID exclusive env)"
| "step m (CallClosePort portName sessionID close_err) =
     snd (ClosePort m portName sessionID close_err)"
| "step m (CallCloseAll order) = snd (CloseAll m order)"
| "step m (CallWrite portName sessionID data n werr now) =
     snd (Write m portName sessionID data n werr now)"
| "step m (CallRead portName sessionID maxBytes input rerr now) =
     snd (Read m portName sessionID maxBytes input rerr now)"
| "step m (CallConfigure portName sessionID config mode_err timeout_err) =
     snd (Configure m portName sessionID config mode_err timeout_err)"
| "step m (CallSubscribeToReads portName sessionID) =
     snd (SubscribeToReads m portName sessionID)"
| "step m (CallUnsubscribeFromReads portName sessionID ch) =
     snd (UnsubscribeFromReads m portName sessionID ch)"
| "step m (CallFlush portName sessionID in_err out_err) = m"
| "step m (Receive ch) = m\<lparr>chans := chan_recv (chans m) ch\<rparr>"

fun run :: "Manager \<Rightarrow> call list \<Rightarrow> Manager" where
  "run m [] = m"
| "run m (c # cs) = run (step m c) cs"

subsection \<open>Invariant of the two indexes, and two concrete runs\<close>

text \<open>
  Invariant 2 of the specification: every entry of the id index is a live session whose
  port name leads to the same session in the name index, and the other way round.
\<close>

definition index_consistent :: "Manager \<Rightarrow> bool" where
  "index_consistent m \<longleftrightarrow>
     (\<forall>sid p. sessionsByID m sid = Some p \<longrightarrow>
        (\<exists>s. session_at m p = Some s \<and> ID s = sid \<and> sessions m (PortName s) = Some p))
     \<and> (\<forall>name p. sessions m name = Some p \<longrightarrow>
        (\<exists>s. session_at m p = Some s \<and> PortName s = name \<and> sessionsByID m (ID s) = Some p))"

text \<open>
  A driver that opens the port, and two UUIDs.  \<open>m_one_open\<close> is the manager (shared
  access allowed) after client \<open>a\<close> opened \<open>COM3\<close> without the exclusive flag;
  \<open>m_two_opens\<close> is the manager after client \<open>b\<close> then did the same.
\<close>

definition open_env_1 :: OpenEnv where
  "open_env_1 = \<lparr>serial_Open = Inr 7, SetReadTimeout_err = None, uuid_New = ''id-1'', time_Now = 10\<rparr>"

definition open_env_2 :: OpenEnv where
  "open_env_2 = \<lparr>serial_Open = Inr 8, SetReadTimeout_err = None, uuid_New = ''id-2'', time_Now = 20\<rparr>"

definition m_one_open :: Manager where
  "m_one_open =
     run (NewManager True DefaultConfig)
       [CallOpenPort ''COM3'' DefaultConfig ''a'' False open_env_1]"

definition m_two_opens :: Manager where
  "m_two_opens =
     run (NewManager True DefaultConfig)
       [CallOpenPort ''COM3'' DefaultConfig ''a'' False open_env_1,
        CallOpenPort ''COM3'' DefaultConfig ''b'' False open_env_2]"

text \<open>
  \<open>m_subscribed\<close>: client \<open>a\<close> holds \<open>COM3\<close> exclusively under the id \<open>id-1\<close> and has one
  subscriber channel.
\<close>

definition m_subscribed :: Manager where
  "m_subscribed =
     run (NewManager False DefaultConfig)
       [CallOpenPort ''COM3'' DefaultConfig ''a'' True open_env_1,
        CallSubscribeToReads ''COM3'' ''id-1'']"

subsection \<open>Successful write counts of a run\<close>

text \<open>
  \<open>sent_by m c p\<close>: when the call \<open>c\<close>, made in state \<open>m\<close>, is a \<^verbatim>\<open>Write\<close> on session \<open>p\<close>
  that returns without error, the byte count it returns; otherwise 0.  \<open>sent_total\<close>
  adds these counts up along a run.
\<close>

fun sent_by :: "Manager \<Rightarrow> call \<Rightarrow> nat \<Rightarrow> int" where
  "sent_by m (CallWrite portName sessionID data n werr now) p =
     (if ValidateSession m portName sessionID = Inr p
         \<and> snd (fst (Write m portName sessionID data n werr now)) = None
      then fst (fst (Write m portName sessionID data n werr now)) else 0)"
| "sent_by m c p = 0"

fun sent_total :: "Manager \<Rightarrow> call list \<Rightarrow> nat \<Rightarrow> int" where
  "sent_total m [] p = 0"
| "sent_total m (c # cs) p = sent_by m c p + sent_total (step m c) cs p"

text \<open>
  The driver's \<^verbatim>\<open>Write\<close> is an \<^verbatim>\<open>io.Writer\<close>: the count it reports is at least 0 and at
  most \<^verbatim>\<open>len(data)\<close>.  \<open>io_ok c\<close> says so of the driver answer that the call \<open>c\<close> carries.
\<close>

fun io_ok :: "call \<Rightarrow> bool" where
  "io_ok (CallWrite portName sessionID data n werr now) = (0 \<le> n \<and> n \<le> int (length data))"
| "io_ok c = True"

text \<open>
  A \<^verbatim>\<open>Write\<close> of 4 GiB (\<open>2^32\<close> bytes) on the session of \<open>m_one_open\<close> that the driver
  accepts in full.
\<close>

definition four_GiB :: nat where
  "four_GiB = 4294967296"

definition write_4GiB :: call where
  "write_4GiB = CallWrite ''COM3'' ''id-1'' (replicate four_GiB 0) (int four_GiB) None 30"

subsection \<open>Port type detection (scanner.go)\<close>

datatype PortType =
    PortTypeUnknown
  | PortTypeUSB
  | PortTypeNative
  | PortTypeBluetooth
  | PortTypeVirtual

text \<open>\<^verbatim>\<open>enumerator.PortDetails\<close> of the serial library.\<close>

record PortDetails =
  Name :: string
  IsUSB :: bool
  VID :: string
  PID :: string
  SerialNumber :: string
  Product :: string

text \<open>
  \<^verbatim>\<open>regexp.MatchString\<close> searches the string for a match of the pattern.  For the four
  patterns of \<^verbatim>\<open>detectPortType\<close> the search is written out:
  \<^item> a pattern of literal characters (\<^verbatim>\<open>/dev/rfcomm\<close>, \<^verbatim>\<open>/dev/pts/\<close>, \<^verbatim>\<open>/dev/pty\<close>) matches
    where the literal occurs: \<open>has_substring\<close>;
  \<^item> under \<^verbatim>\<open>(?i)\<close> a letter matches in either case (none of the letters of
    \<^verbatim>\<open>bluetooth|bth\<close> has a further case variant), so the literal is searched in the
    name with its ASCII capitals lowered: \<open>ascii_lower\<close>;
  \<^item> \<^verbatim>\<open>.*\<close> matches any run of characters without a line feed: \<open>dot_star_then lit s\<close>
    says that \<open>s\<close> starts with such a run followed by \<open>lit\<close>.
\<close>

fun has_substring :: "string \<Rightarrow> string \<Rightarrow> bool" where
  "has_substring lit [] = (lit = [])"
| "has_substring lit (c # cs) = (prefix lit (c # cs) \<or> has_substring lit cs)"

definition ascii_lower :: "char \<Rightarrow> char" where
  "ascii_lower c =
     (case map_of (zip ''ABCDEFGHIJKLMNOPQRSTUVWXYZ'' ''abcdefghijklmnopqrstuvwxyz'') c of
        Some l \<Rightarrow> l
      | None \<Rightarrow> c)"

fun dot_star_then :: "string \<Rightarrow> string \<Rightarrow> bool" where
  "dot_star_then lit [] = (lit = [])"
| "dot_star_then lit (c # cs) =
     (prefix lit (c # cs) \<or> (c \<noteq> CHR 0x0A \<and> dot_star_then lit cs))"

text \<open>\<^verbatim>\<open>(?i)bluetooth|bth\<close>, \<^verbatim>\<open>/dev/rfcomm\<close>, \<^verbatim>\<open>/dev/.*Bluetooth\<close> and \<^verbatim>\<open>/dev/pts/|/dev/pty\<close>.\<close>

definition match_windows_bluetooth :: "string \<Rightarrow> bool" where
  "match_windows_bluetooth name =
     (has_substring ''bluetooth'' (map ascii_lower name)
      \<or> has_substring ''bth'' (map ascii_lower name))"

definition match_linux_bluetooth :: "string \<Rightarrow> bool" where
  "match_linux_bluetooth name = has_substring ''/dev/rfcomm'' name"

fun match_darwin_bluetooth :: "string \<Rightarrow> bool" where
  "match_darwin_bluetooth [] = False"
| "match_darwin_bluetooth (c # cs) =
     ((prefix ''/dev/'' (c # cs) \<and> dot_star_then ''Bluetooth'' (drop 5 (c # cs)))
      \<or> match_darwin_bluetooth cs)"

definition match_linux_virtual :: "string \<Rightarrow> bool" where
  "match_linux_virtual name =
     (has_substring ''/dev/pts/'' name \<or> has_substring ''/dev/pty'' name)"

text \<open>\<^verbatim>\<open>Scanner.detectPortType\<close>; \<open>goos\<close> is \<^verbatim>\<open>runtime.GOOS\<close> and \<open>details\<close> the parameter \<^verbatim>\<open>port\<close>.\<close>

definition detectPortType :: "string \<Rightarrow> PortDetails \<Rightarrow> PortType" where
  "detectPortType goos details =
     (if IsUSB details then PortTypeUSB
      else if goos = ''windows'' \<and> match_windows_bluetooth (Name details) then PortTypeBluetooth
      else if goos = ''linux'' \<and> match_linux_bluetooth (Name details) then PortTypeBluetooth
      else if goos = ''darwin'' \<and> match_darwin_bluetooth (Name details) then PortTypeBluetooth
      else if goos = ''linux'' \<and> match_linux_virtual (Name details) then PortTypeVirtual
      else PortTypeNative)"

text \<open>
  The name patterns as sets of strings.  \<open>contains lit s\<close>: the text \<open>lit\<close> occurs in
  \<open>s\<close>.  \<open>spec_bluetooth_name\<close> is the Bluetooth pattern in the words of the
  specification (section 4.2), with "\<open>Bluetooth\<close> in name" for macOS;
  \<open>code_bluetooth_name\<close> differs from it on macOS only, where the text \<open>/dev/\<close> has to
  come before \<open>Bluetooth\<close> with no line feed between the two.
\<close>

definition contains :: "string \<Rightarrow> string \<Rightarrow> bool" where
  "contains lit s \<longleftrightarrow> (\<exists>a b. s = a @ lit @ b)"

definition contains_nocase :: "string \<Rightarrow> string \<Rightarrow> bool" where
  "contains_nocase lit s \<longleftrightarrow> (\<exists>a w b. s = a @ w @ b \<and> map ascii_lower w = lit)"

definition spec_bluetooth_name :: "string \<Rightarrow> string \<Rightarrow> bool" where
  "spec_bluetooth_name goos name \<longleftrightarrow>
     goos = ''windows'' \<and> (contains_nocase ''bluetooth'' name \<or> contains_nocase ''bth'' name)
     \<or> goos = ''linux'' \<and> contains ''/dev/rfcomm'' name
     \<or> goos = ''darwin'' \<and> contains ''Bluetooth'' name"

definition code_bluetooth_name :: "string \<Rightarrow> string \<Rightarrow> bool" where
  "code_bluetooth_name goos name \<longleftrightarrow>
     goos = ''windows'' \<and> (contains_nocase ''bluetooth'' name \<or> contains_nocase ''bth'' name)
     \<or> goos = ''linux'' \<and> contains ''/dev/rfcomm'' name
     \<or> goos = ''darwin'' \<and>
        (\<exists>a mid b. name = a @ ''/dev/'' @ mid @ ''Bluetooth'' @ b \<and> CHR 0x0A \<notin> set mid)"

definition spec_virtual_name :: "string \<Rightarrow> string \<Rightarrow> bool" where
  "spec_virtual_name goos name \<longleftrightarrow>
     goos = ''linux'' \<and> (contains ''/dev/pts/'' name \<or> contains ''/dev/pty'' name)"

text \<open>The classification of the specification, over a given Bluetooth pattern.\<close>

definition classify :: "(string \<Rightarrow> string \<Rightarrow> bool) \<Rightarrow> string \<Rightarrow> PortDetails \<Rightarrow> PortType" where
  "classify bluetooth goos details =
     (if IsUSB details then PortTypeUSB
      else if bluetooth goos (Name details) then PortTypeBluetooth
      else if spec_virtual_name goos (Name details) then PortTypeVirtual
      else PortTypeNative)"

definition port_named :: "string \<Rightarrow> bool \<Rightarrow> PortDetails" where
  "port_named name usb =
     \<lparr>Name = name, IsUSB = usb, VID = [], PID = [], SerialNumber = [], Product = []\<rparr>"

text \<open>
  \<^verbatim>\<open>detectPortType\<close> is called by \<^verbatim>\<open>Scan\<close> only, on the ports that
  \<^verbatim>\<open>enumerator.GetDetailedPortsList\<close> of the serial library returns.  On macOS the library
  reports for every serial service the path of its callout device, a file under
  \<^verbatim>\<open>/dev/\<close>: \<open>device_path name\<close> says that the name starts with \<^verbatim>\<open>/dev/\<close> and holds no line
  feed.  \<open>enumerated goos details\<close>: the port can come from the enumerator of the
  operating system \<open>goos\<close>.
\<close>

definition device_path :: "string \<Rightarrow> bool" where
  "device_path name \<longleftrightarrow> prefix ''/dev/'' name \<and> CHR 0x0A \<notin> set name"

definition enumerated :: "string \<Rightarrow> PortDetails \<Rightarrow> bool" where
  "enumerated goos details \<longleftrightarrow> (goos = ''darwin'' \<longrightarrow> device_path (Name details))"

subsection \<open>The streaming reader (reader.go)\<close>

record DataEvent =
  Data :: "byte list"
  Timestamp :: nat
  Sequence :: "32 word"
  Error :: "error option"

text \<open>
  \<^verbatim>\<open>Reader\<close>, with the memory its fields refer to.  \<open>stopChan\<close> is an index into
  \<open>stop_closed\<close>, which records for every stop channel made so far whether it was closed
  (nothing is ever sent on a stop channel); \<open>subscribers\<close> are indexes into
  \<open>event_chans\<close>; \<open>loops_spawned\<close> counts the \<^verbatim>\<open>go r.readLoop(ctx)\<close> statements executed.
  The field \<^verbatim>\<open>manager\<close> is the manager state passed to the functions that use it.
\<close>

record Reader =
  portName :: string
  sessionID :: string
  bufferSize :: int
  running :: bool
  stopChan :: nat
  subscribers :: "nat list"
  stop_closed :: "bool list"
  event_chans :: "DataEvent chan list"
  loops_spawned :: nat

definition NewReader :: "string \<Rightarrow> string \<Rightarrow> int \<Rightarrow> Reader" where
  "NewReader pn sid n =
     \<lparr>portName = pn, sessionID = sid,
      bufferSize = (if n \<le> 0 then 1024 else n),
      running = False, stopChan = 0, subscribers = [],
      stop_closed = [False], event_chans = [], loops_spawned = 0\<rparr>"

text \<open>\<^verbatim>\<open>Reader.Start\<close>; the result is the error returned.\<close>

definition Start :: "Reader \<Rightarrow> Manager \<Rightarrow> error option \<times> Reader" where
  "Start r m =
     (if running r then (None, r)
      else
        (case ValidateSession m (portName r) (sessionID r) of
           Inl err \<Rightarrow> (Some err, r)
         | Inr p \<Rightarrow>
            (None,
             r\<lparr>running := True,
               stopChan := length (stop_closed r),
               stop_closed := stop_closed r @ [False],
               loops_spawned := loops_spawned r + 1\<rparr>)))"

text \<open>
  \<^verbatim>\<open>Reader.Stop\<close>.  The \<^verbatim>\<open>select\<close> closes the stop channel unless a receive on it succeeds,
  which it does when the channel is closed; on a \<^verbatim>\<open>nil\<close> stop channel the \<^verbatim>\<open>close\<close>
  panics.  The result is \<open>Some\<close> of a panic, or \<open>None\<close>.
\<close>

definition Stop :: "Reader \<Rightarrow> error option \<times> Reader" where
  "Stop r =
     (if \<not> running r then (None, r)
      else
        (let r1 = r\<lparr>running := False\<rparr> in
         if \<not> stopChan r1 < length (stop_closed r1)
         then (Some (Panic ''close of nil channel''), r1)
         else
           (let r2 = r1\<lparr>stop_closed := (stop_closed r1)[stopChan r1 := True]\<rparr> in
            (case close_chans (event_chans r2) (subscribers r2) of
               (cs, False) \<Rightarrow> (Some (Panic ''close of closed channel''), r2\<lparr>event_chans := cs\<rparr>)
             | (cs, True) \<Rightarrow> (None, r2\<lparr>event_chans := cs, subscribers := []\<rparr>)))))"

text \<open>\<^verbatim>\<open>Reader.Subscribe\<close>: the result is the new channel.\<close>

definition Subscribe :: "Reader \<Rightarrow> nat \<times> Reader" where
  "Subscribe r =
     (let ch = length (event_chans r) in
      (ch, r\<lparr>event_chans := event_chans r @ [make_chan 100],
             subscribers := subscribers r @ [ch]\<rparr>))"

text \<open>\<^verbatim>\<open>Reader.Unsubscribe\<close>.\<close>

definition Unsubscribe :: "Reader \<Rightarrow> nat \<Rightarrow> error option \<times> Reader" where
  "Unsubscribe r ch =
     (if ch \<in> set (subscribers r) then
        (case close_chans (event_chans r) [ch] of
           (cs, False) \<Rightarrow> (Some (Panic ''close of closed channel''), r)
         | (cs, True) \<Rightarrow>
             (None, r\<lparr>event_chans := cs, subscribers := remove1 ch (subscribers r)\<rparr>))
      else (None, r))"

definition SubscriberCount :: "Reader \<Rightarrow> int" where
  "SubscriberCount r = int (length (subscribers r))"

definition IsRunning :: "Reader \<Rightarrow> bool" where
  "IsRunning r = running r"

text \<open>\<^verbatim>\<open>Reader.broadcast\<close>; \<open>False\<close> in the second component is a panic.\<close>

definition broadcast :: "Reader \<Rightarrow> DataEvent \<Rightarrow> Reader \<times> bool" where
  "broadcast r event =
     (case try_send_all (event_chans r) (subscribers r) event of
        (cs, ok) \<Rightarrow> (r\<lparr>event_chans := cs\<rparr>, ok))"

subsection \<open>One run of the read loop, with its subscribers\<close>

text \<open>
  The state of one execution of \<^verbatim>\<open>Reader.readLoop\<close> among the other parties: the manager,
  the reader, the local variable \<^verbatim>\<open>sequence\<close>, whether the loop has returned, and two
  histories kept for the statement of properties: the events handed to \<^verbatim>\<open>broadcast\<close>,
  in order, and for every channel the events a subscriber has received from it, in
  order.
\<close>

record fanout =
  fo_manager :: Manager
  fo_reader :: Reader
  fo_sequence :: "32 word"
  fo_returned :: bool
  broadcast_log :: "DataEvent list"
  received :: "nat \<Rightarrow> DataEvent list"

text \<open>
  What one pass through the loop body finds: whether \<^verbatim>\<open>ctx.Done()\<close> is closed, which
  case the \<^verbatim>\<open>select\<close> picks when both channels are ready, what the line holds and the
  driver answers to the \<^verbatim>\<open>Read\<close>, and the two readings of the clock.
\<close>

record pass_env =
  ctx_done :: bool
  pick_ctx :: bool
  line_input :: "byte list"
  read_err :: "string option"
  read_now :: nat
  event_now :: nat

text \<open>
  One evaluation of the loop condition and, if it holds, of the loop body.  The
  comparison \<^verbatim>\<open>err == ErrPortClosed\<close> is equality of error values.  A panic ends the
  goroutine.
\<close>

fun is_panic :: "error option \<Rightarrow> bool" where
  "is_panic (Some (Panic x)) = True"
| "is_panic e = False"

definition readLoop_pass :: "fanout \<Rightarrow> pass_env \<Rightarrow> fanout" where
  "readLoop_pass s env =
     (let r = fo_reader s;
          stop_ready = (stopChan r < length (stop_closed r) \<and> stop_closed r ! stopChan r)
      in
      if fo_returned s then s
      else if \<not> running r then s\<lparr>fo_returned := True\<rparr>
      else if ctx_done env \<and> (pick_ctx env \<or> \<not> stop_ready) then
        s\<lparr>fo_reader := snd (Stop r), fo_returned := True\<rparr>
      else if stop_ready then s\<lparr>fo_returned := True\<rparr>
      else
        (case Read (fo_manager s) (portName r) (sessionID r) (bufferSize r)
                (line_input env) (read_err env) (read_now env) of
           ((data, err), m') \<Rightarrow>
             if is_panic err then s\<lparr>fo_manager := m', fo_returned := True\<rparr>
             else if err = None \<and> length data = 0 then s\<lparr>fo_manager := m'\<rparr>
             else
               (let sequence = fo_sequence s + 1;
                    event = \<lparr>Data = data, Timestamp = event_now env,
                             Sequence = sequence, Error = err\<rparr>;
                    (r', ok) = broadcast r event;
                    s' = s\<lparr>fo_manager := m', fo_reader := r', fo_sequence := sequence,
                           broadcast_log := broadcast_log s @ [event]\<rparr>
                in if \<not> ok then s'\<lparr>fo_returned := True\<rparr>
                   else if err = Some ErrPortClosed \<or> err = Some ErrInvalidSession
                   then s'\<lparr>fo_reader := snd (Stop r'), fo_returned := True\<rparr>
                   else s')))"

text \<open>
  What can happen while the loop runs: a pass of the loop, a subscriber receiving from
  its channel (it gets the oldest queued event; on an empty channel nothing is
  received), calls of \<^verbatim>\<open>Subscribe\<close>, \<^verbatim>\<open>Unsubscribe\<close> and \<^verbatim>\<open>Stop\<close>, and calls of the manager by
  other clients.  \<^verbatim>\<open>broadcast\<close> holds the subscriber guard, so these calls do not fall
  inside a pass; a receive that falls between two sends of one \<^verbatim>\<open>broadcast\<close> touches one
  channel only, and has the same effect as the receive before or after the pass.
\<close>

datatype action =
    Pass pass_env
  | Take nat
  | DoSubscribe
  | DoUnsubscribe nat
  | DoStop
  | ManagerCall call

fun act :: "fanout \<Rightarrow> action \<Rightarrow> fanout" where
  "act s (Pass env) = readLoop_pass s env"
| "act s (Take ch) =
     (let cs = event_chans (fo_reader s) in
      if ch < length cs \<and> chan_buf (cs ! ch) \<noteq> []
      then s\<lparr>fo_reader := (fo_reader s)\<lparr>event_chans := chan_recv cs ch\<rparr>,
             received := (received s)(ch := received s ch @ [hd (chan_buf (cs ! ch))])\<rparr>
      else s)"
| "act s DoSubscribe = s\<lparr>fo_reader := snd (Subscribe (fo_reader s))\<rparr>"
| "act s (DoUnsubscribe ch) = s\<lparr>fo_reader := snd (Unsubscribe (fo_reader s) ch)\<rparr>"
| "act s DoStop = s\<lparr>fo_reader := snd (Stop (fo_reader s))\<rparr>"
| "act s (ManagerCall c) = s\<lparr>fo_manager := step (fo_manager s) c\<rparr>"

fun acts :: "fanout \<Rightarrow> action list \<Rightarrow> fanout" where
  "acts s [] = s"
| "acts s (a # as) = acts (act s a) as"

text \<open>
  The state in which \<^verbatim>\<open>readLoop\<close> starts: \<^verbatim>\<open>sequence\<close> is 0 and nothing was broadcast or
  received yet.
\<close>

definition loop_start :: "Manager \<Rightarrow> Reader \<Rightarrow> fanout" where
  "loop_start m r =
     \<lparr>fo_manager = m, fo_reader = r, fo_sequence = 0, fo_returned = False,
      broadcast_log = [], received = (\<lambda>ch. [])\<rparr>"

text \<open>The events queued in a channel (none in a channel that does not exist).\<close>

definition queued :: "Reader \<Rightarrow> nat \<Rightarrow> DataEvent list" where
  "queued r ch = (if ch < length (event_chans r) then chan_buf (event_chans r ! ch) else [])"

text \<open>
  \<open>r_started\<close>: the reader that \<^verbatim>\<open>StreamRead\<close> builds for the session of \<open>m_one_open\<close>, after
  \<^verbatim>\<open>Start\<close>.
\<close>

definition r_started :: Reader where
  "r_started = snd (Start (NewReader ''COM3'' ''id-1'' 1024) m_one_open)"

text \<open>
  The invariant of a run of the loop, \<open>q0\<close> being what was queued in each channel when
  the loop started: \<^verbatim>\<open>sequence\<close> counts the events broadcast so far modulo \<open>2^32\<close>, the
  \<open>i\<close>-th event (from 0) carries the number \<open>i + 1\<close>, the subscriber list has no channel
  twice and no \<^verbatim>\<open>nil\<close> channel, and what a subscriber has received from a channel,
  followed by what is still queued in it, is what was queued at the start followed by
  a subsequence of the events broadcast.
\<close>

definition fan_inv_of ::
  "(nat \<Rightarrow> DataEvent list) \<Rightarrow> 32 word \<Rightarrow> DataEvent list \<Rightarrow> (nat \<Rightarrow> DataEvent list)
     \<Rightarrow> Reader \<Rightarrow> bool" where
  "fan_inv_of q0 q log rcv r \<longleftrightarrow>
     q = of_nat (length log)
     \<and> (\<forall>i<length log. Sequence (log ! i) = of_nat (Suc i))
     \<and> distinct (subscribers r)
     \<and> (\<forall>c\<in>set (subscribers r). c < length (event_chans r))
     \<and> (\<forall>c. \<exists>new. rcv c @ queued r c = q0 c @ new \<and> subseq new log)"

definition fan_inv :: "(nat \<Rightarrow> DataEvent list) \<Rightarrow> fanout \<Rightarrow> bool" where
  "fan_inv q0 s =
     fan_inv_of q0 (fo_sequence s) (broadcast_log s) (received s) (fo_reader s)"

text \<open>
  \<open>r_subscribed\<close>: the reader \<open>r_started\<close> with one subscriber.  \<open>two_reads\<close>: a pass of the
  loop that reads two bytes, the subscriber receiving an event, and a pass that reads
  one byte.
\<close>

definition r_subscribed :: Reader where
  "r_subscribed = snd (Subscribe r_started)"

definition two_reads :: "action list" where
  "two_reads =
     [Pass \<lparr>ctx_done = False, pick_ctx = False, line_input = [72, 73], read_err = None,
            read_now = 40, event_now = 41\<rparr>,
      Take 0,
      Pass \<lparr>ctx_done = False, pick_ctx = False, line_input = [74], read_err = None,
            read_now = 50, event_now = 51\<rparr>]"

text \<open>
  What can be done to a reader before it is started: calls of \<^verbatim>\<open>Subscribe\<close> (\<open>None\<close>) and
  of \<^verbatim>\<open>Unsubscribe\<close> (\<open>Some ch\<close>).
\<close>

fun before_start :: "Reader \<Rightarrow> nat option list \<Rightarrow> Reader" where
  "before_start r [] = r"
| "before_start r (None # cs) = before_start (snd (Subscribe r)) cs"
| "before_start r (Some ch # cs) = before_start (snd (Unsubscribe r ch)) cs"

subsection \<open>The Read handler of the service (server.go) and the read command (cmd/read.go)\<close>










subsection \<open>Well-formed manager states\<close>

text \<open>
  What every state of a running manager satisfies: an entry of the name index points to
  a session of the heap that carries that port name; the subscriber channels of a
  session are distinct, exist and are open; and no channel is subscribed to two
  sessions.
\<close>

definition wf :: "Manager \<Rightarrow> bool" where
  "wf m \<longleftrightarrow>
     (\<forall>name p. sessions m name = Some p \<longrightarrow>
        p < length (heap m) \<and> PortName (heap m ! p) = name)
     \<and> (\<forall>p<length (heap m).
          distinct (readers (heap m ! p))
          \<and> (\<forall>c\<in>set (readers (heap m ! p)). c < length (chans m) \<and> \<not> chan_closed (chans m ! c)))
     \<and> (\<forall>p<length (heap m). \<forall>q<length (heap m).
          p \<noteq> q \<longrightarrow> set (readers (heap m ! p)) \<inter> set (readers (heap m ! q)) = {})"

section \<open>Verification\<close>

subsection \<open>Configuration validation\<close>

lemmas enum_defs =
  ParityNone_def ParityOdd_def ParityEven_def ParityMark_def ParitySpace_def
  StopBits1_def StopBits1Half_def StopBits2_def
  FlowControlNone_def FlowControlHardware_def FlowControlSoftware_def

lemma validBaudRates_ge: "b \<in> set validBaudRates \<Longrightarrow> 300 \<le> b"
  by (auto simp: validBaudRates_def)

lemma Validate_None_iff:
  "Validate c = None \<longleftrightarrow>
     300 \<le> BaudRate c \<and> 5 \<le> DataBits c \<and> DataBits c \<le> 8
     \<and> 0 \<le> StopBits c \<and> StopBits c \<le> 2
     \<and> 0 \<le> Parity c \<and> Parity c \<le> 4
     \<and> 0 \<le> FlowControl c \<and> FlowControl c \<le> 2"
  using validBaudRates_ge [of "BaudRate c"]
  by (auto simp: Validate_def enum_defs)

lemma Validate_error_kind:
  "Validate c = Some e \<Longrightarrow> errors_Is e ErrInvalidConfig"
  by (auto simp: Validate_def split: if_splits)

text \<open>
  C5 (as the claim states it, refuted): \<^verbatim>\<open>Validate\<close> does not look at the two timeouts.
  A configuration that is the default one but for a read timeout of \<open>-1\<close> is outside
  the specification's domain, and \<^verbatim>\<open>Validate\<close> accepts it.
\<close>

theorem C5_negative_timeout_accepted:
  "Validate (DefaultConfig\<lparr>ReadTimeoutMs := -1\<rparr>) = None
   \<and> \<not> spec_config_domain (DefaultConfig\<lparr>ReadTimeoutMs := -1\<rparr>)"
  by (simp add: Validate_def DefaultConfig_def spec_config_domain_def enum_defs
      validBaudRates_def)

lemma int_in_5_8: "(d::int) \<in> {5, 6, 7, 8} \<longleftrightarrow> 5 \<le> d \<and> d \<le> 8"
  by auto

lemma int_in_0_2: "(d::int) \<in> {0, 1, 2} \<longleftrightarrow> 0 \<le> d \<and> d \<le> 2"
  by auto

lemma int_in_0_4: "(d::int) \<in> {0, 1, 2, 3, 4} \<longleftrightarrow> 0 \<le> d \<and> d \<le> 4"
  by auto

lemma Validate_None_enum:
  "Validate c = None \<longleftrightarrow>
      300 \<le> BaudRate c
      \<and> DataBits c \<in> {5, 6, 7, 8}
      \<and> StopBits c \<in> {StopBits1, StopBits1Half, StopBits2}
      \<and> Parity c \<in> {ParityNone, ParityOdd, ParityEven, ParityMark, ParitySpace}
      \<and> FlowControl c \<in> {FlowControlNone, FlowControlHardware, FlowControlSoftware}"
  unfolding enum_defs int_in_5_8 int_in_0_2 int_in_0_4 Validate_None_iff
  by (simp only: conj_assoc)

lemma Validate_kind:
  "Validate c = None \<or> (\<exists>m. Validate c = Some (Wrap m ErrInvalidConfig))"
  by (simp add: Validate_def)

lemma spec_config_domain_iff:
  "spec_config_domain c \<longleftrightarrow>
     Validate c = None \<and> 0 \<le> ReadTimeoutMs c \<and> 0 \<le> WriteTimeoutMs c"
  unfolding Validate_None_enum spec_config_domain_def by linarith

text \<open>
  C5 (amended): \<^verbatim>\<open>Validate\<close> succeeds exactly when the baud rate is at least 300, the data
  bits are in 5..8 and stop bits, parity and flow control are values of their
  enumerations, whatever the two timeouts are; every other configuration yields an
  error that wraps \<^verbatim>\<open>ErrInvalidConfig\<close>.  On configurations whose timeouts are not
  negative this is the specification's domain.
\<close>

theorem C5_Validate_domain:
  "(Validate c = None \<longleftrightarrow>
      300 \<le> BaudRate c
      \<and> DataBits c \<in> {5, 6, 7, 8}
      \<and> StopBits c \<in> {StopBits1, StopBits1Half, StopBits2}
      \<and> Parity c \<in> {ParityNone, ParityOdd, ParityEven, ParityMark, ParitySpace}
      \<and> FlowControl c \<in> {FlowControlNone, FlowControlHardware, FlowControlSoftware})
   \<and> (Validate c = None \<or> (\<exists>m. Validate c = Some (Wrap m ErrInvalidConfig)))
   \<and> (0 \<le> ReadTimeoutMs c \<and> 0 \<le> WriteTimeoutMs c \<longrightarrow>
        (Validate c = None \<longleftrightarrow> spec_config_domain c))"
proof -
  have spec: "0 \<le> ReadTimeoutMs c \<and> 0 \<le> WriteTimeoutMs c \<longrightarrow>
        (Validate c = None \<longleftrightarrow> spec_config_domain c)"
    by (simp add: spec_config_domain_iff)
  show ?thesis
    by (rule conjI [OF Validate_None_enum conjI [OF Validate_kind spec]])
qed

theorem C5_Validate_domain_witness:
  "Validate DefaultConfig = None \<and> spec_config_domain DefaultConfig
   \<and> Validate (DefaultConfig\<lparr>BaudRate := 299\<rparr>) = Some (Wrap ''baud rate is too low'' ErrInvalidConfig)
   \<and> \<not> spec_config_domain (DefaultConfig\<lparr>BaudRate := 299\<rparr>)"
proof -
  have a: "0 \<le> ReadTimeoutMs DefaultConfig \<and> 0 \<le> WriteTimeoutMs DefaultConfig"
    by (simp add: DefaultConfig_def)
  have b: "0 \<le> ReadTimeoutMs (DefaultConfig\<lparr>BaudRate := 299\<rparr>)
           \<and> 0 \<le> WriteTimeoutMs (DefaultConfig\<lparr>BaudRate := 299\<rparr>)"
    by (simp add: DefaultConfig_def)
  have v1: "Validate DefaultConfig = None"
    by (simp add: Validate_def DefaultConfig_def enum_defs validBaudRates_def)
  have v2: "Validate (DefaultConfig\<lparr>BaudRate := 299\<rparr>)
              = Some (Wrap ''baud rate is too low'' ErrInvalidConfig)"
    by (simp add: Validate_def DefaultConfig_def enum_defs validBaudRates_def)
  from C5_Validate_domain [of DefaultConfig] a v1
  have s1: "spec_config_domain DefaultConfig" by blast
  from C5_Validate_domain [of "DefaultConfig\<lparr>BaudRate := 299\<rparr>"] b v2
  have s2: "\<not> spec_config_domain (DefaultConfig\<lparr>BaudRate := 299\<rparr>)" by simp
  from v1 v2 s1 s2 show ?thesis by blast
qed

subsection \<open>Opening and closing ports\<close>

lemma Validate_DefaultConfig: "Validate DefaultConfig = None"
  by (simp add: Validate_def DefaultConfig_def enum_defs validBaudRates_def)

lemma ReadTimeout_DefaultConfig: "ReadTimeoutMs DefaultConfig = 1000"
  by (simp add: DefaultConfig_def)

lemma m_one_open_eq:
  "m_one_open =
     \<lparr>sessions = [''COM3'' \<mapsto> 0], sessionsByID = [''id-1'' \<mapsto> 0],
      allowSharedAccess = True, defaultConfig = DefaultConfig,
      heap = [\<lparr>ID = ''id-1'', PortName = ''COM3'', ClientID = ''a'', Exclusive = False,
               Config = DefaultConfig,
               Statistics = \<lparr>BytesSent = 0, BytesReceived = 0, Errors = 0,
                             OpenedAt = 10, LastActivity = 10\<rparr>,
               port = Some 7, closed = False, readers = []\<rparr>],
      chans = []\<rparr>"
  by (simp add: m_one_open_def OpenPort_def NewManager_def open_env_1_def
      Validate_DefaultConfig ReadTimeout_DefaultConfig)

lemma OpenPort_m_one_open:
  "OpenPort m_one_open ''COM3'' DefaultConfig ''b'' False open_env_2 =
     (Inr 1,
      \<lparr>sessions = [''COM3'' \<mapsto> 1], sessionsByID = [''id-1'' \<mapsto> 0, ''id-2'' \<mapsto> 1],
       allowSharedAccess = True, defaultConfig = DefaultConfig,
       heap = [\<lparr>ID = ''id-1'', PortName = ''COM3'', ClientID = ''a'', Exclusive = False,
                Config = DefaultConfig,
                Statistics = \<lparr>BytesSent = 0, BytesReceived = 0, Errors = 0,
                              OpenedAt = 10, LastActivity = 10\<rparr>,
                port = Some 7, closed = False, readers = []\<rparr>,
               \<lparr>ID = ''id-2'', PortName = ''COM3'', ClientID = ''b'', Exclusive = False,
                Config = DefaultConfig,
                Statistics = \<lparr>BytesSent = 0, BytesReceived = 0, Errors = 0,
                              OpenedAt = 20, LastActivity = 20\<rparr>,
                port = Some 8, closed = False, readers = []\<rparr>],
       chans = []\<rparr>)"
  by (simp add: m_one_open_eq OpenPort_def open_env_2_def session_at_def
      Validate_DefaultConfig ReadTimeout_DefaultConfig)

lemma m_two_opens_eq:
  "m_two_opens = snd (OpenPort m_one_open ''COM3'' DefaultConfig ''b'' False open_env_2)"
  by (simp add: m_two_opens_def m_one_open_def)

text \<open>
  C1 (as the claim states it, refuted): with shared access allowed and \<open>COM3\<close> held by the
  non-exclusive session \<open>id-1\<close> (object 0), a second non-exclusive \<^verbatim>\<open>OpenPort\<close> returns a
  new object 1 with the new id \<open>id-2\<close>, and both indexes change.
\<close>

theorem C1_shared_open_returns_new_session:
  "sessions m_one_open ''COM3'' = Some 0
   \<and> \<not> Exclusive (heap m_one_open ! 0) \<and> allowSharedAccess m_one_open
   \<and> ID (heap m_one_open ! 0) = ''id-1''
   \<and> fst (OpenPort m_one_open ''COM3'' DefaultConfig ''b'' False open_env_2) = Inr 1
   \<and> ID (heap m_two_opens ! 1) = ''id-2''
   \<and> length (heap m_one_open) = 1 \<and> length (heap m_two_opens) = 2
   \<and> sessions m_two_opens ''COM3'' = Some 1
   \<and> sessionsByID m_one_open ''id-2'' = None
   \<and> sessionsByID m_two_opens ''id-2'' = Some 1"
  unfolding m_two_opens_eq OpenPort_m_one_open
  by (simp add: m_one_open_eq)

text \<open>
  C1 (amended): when \<^verbatim>\<open>OpenPort\<close> is called without the exclusive flag on a port held by
  a non-exclusive session and shared access is allowed, the call is never refused with
  \<^verbatim>\<open>ErrPortLocked\<close>; it opens the driver again, and when the driver opens the port (and
  accepts the read timeout, if one is configured) it creates a new \<^verbatim>\<open>Session\<close> object with
  the freshly generated id, returns it, and installs it under the port name and under
  its id.  The fields of the session that held the port before are not written.
\<close>

theorem C1_shared_open_creates_session:
  assumes valid: "Validate config = None"
    and held: "sessions m name = Some q" "session_at m q = Some existing"
    and shared: "\<not> Exclusive existing" "allowSharedAccess m"
  shows "fst (OpenPort m name config clientID False env) \<noteq> Inl ErrPortLocked
    \<and> (serial_Open env = Inr h
         \<and> (0 < ReadTimeoutMs config \<longrightarrow> SetReadTimeout_err env = None) \<longrightarrow>
        (\<exists>m'. OpenPort m name config clientID False env = (Inr (length (heap m)), m')
           \<and> length (heap m) \<noteq> q
           \<and> session_at m' (length (heap m)) =
               Some \<lparr>ID = uuid_New env, PortName = name, ClientID = clientID,
                     Exclusive = False, Config = config,
                     Statistics = \<lparr>BytesSent = 0, BytesReceived = 0, Errors = 0,
                                   OpenedAt = time_Now env, LastActivity = time_Now env\<rparr>,
                     port = Some h, closed = False, readers = []\<rparr>
           \<and> sessions m' = (sessions m)(name \<mapsto> length (heap m))
           \<and> sessionsByID m' (uuid_New env) = Some (length (heap m))
           \<and> session_at m' q = Some existing))"
proof -
  from held have q: "q < length (heap m)" "heap m ! q = existing"
    by (auto simp: session_at_def split: if_splits)
  have not_locked: "fst (OpenPort m name config clientID False env) \<noteq> Inl ErrPortLocked"
    using valid held shared
    by (simp add: OpenPort_def Let_def split: sum.split option.split)
  have created: "\<exists>m'. OpenPort m name config clientID False env = (Inr (length (heap m)), m')
           \<and> length (heap m) \<noteq> q
           \<and> session_at m' (length (heap m)) =
               Some \<lparr>ID = uuid_New env, PortName = name, ClientID = clientID,
                     Exclusive = False, Config = config,
                     Statistics = \<lparr>BytesSent = 0, BytesReceived = 0, Errors = 0,
                                   OpenedAt = time_Now env, LastActivity = time_Now env\<rparr>,
                     port = Some h, closed = False, readers = []\<rparr>
           \<and> sessions m' = (sessions m)(name \<mapsto> length (heap m))
           \<and> sessionsByID m' (uuid_New env) = Some (length (heap m))
           \<and> session_at m' q = Some existing"
    if drv: "serial_Open env = Inr h"
      and tmo: "0 < ReadTimeoutMs config \<longrightarrow> SetReadTimeout_err env = None"
    using valid held shared drv tmo q
    by (simp add: OpenPort_def Let_def session_at_def nth_append)
  from not_locked created show ?thesis by blast
qed

theorem C1_shared_open_creates_session_witness:
  "fst (OpenPort m_one_open ''COM3'' DefaultConfig ''b'' False open_env_2) \<noteq> Inl ErrPortLocked
   \<and> (\<exists>m'. OpenPort m_one_open ''COM3'' DefaultConfig ''b'' False open_env_2 = (Inr 1, m')
         \<and> sessions m' ''COM3'' = Some 1
         \<and> sessionsByID m' ''id-2'' = Some 1
         \<and> session_at m' 0 = Some (heap m_one_open ! 0))"
proof -
  have a: "Validate DefaultConfig = None" by (rule Validate_DefaultConfig)
  have b: "sessions m_one_open ''COM3'' = Some 0" by (simp add: m_one_open_eq)
  have c: "session_at m_one_open 0 = Some (heap m_one_open ! 0)"
    by (simp add: m_one_open_eq session_at_def)
  have d: "\<not> Exclusive (heap m_one_open ! 0)" by (simp add: m_one_open_eq)
  have e: "allowSharedAccess m_one_open" by (simp add: m_one_open_eq)
  have f: "serial_Open open_env_2 = Inr 8
           \<and> (0 < ReadTimeoutMs DefaultConfig \<longrightarrow> SetReadTimeout_err open_env_2 = None)"
    by (simp add: open_env_2_def)
  have g: "length (heap m_one_open) = 1" "uuid_New open_env_2 = ''id-2''"
    by (simp_all add: m_one_open_eq open_env_2_def)
  from C1_shared_open_creates_session [OF a b c d e, of "''b''" open_env_2 8] f
  show ?thesis unfolding g by fastforce
qed

text \<open>
  C2 (the code at the failing input): after the two opens of \<open>COM3\<close> the id \<open>id-1\<close> is
  still a key of the id index and leads to object 0, a session that is not closed and
  whose port name is \<open>COM3\<close>, while the name index leads from \<open>COM3\<close> to object 1.  The
  invariant of the two indexes is broken in a state reached by two calls of \<^verbatim>\<open>OpenPort\<close>.
\<close>

theorem C2_stale_id_after_shared_open:
  "sessionsByID m_two_opens ''id-1'' = Some 0
   \<and> PortName (heap m_two_opens ! 0) = ''COM3''
   \<and> \<not> closed (heap m_two_opens ! 0)
   \<and> sessions m_two_opens ''COM3'' = Some 1
   \<and> \<not> index_consistent m_two_opens"
proof -
  have facts: "sessionsByID m_two_opens ''id-1'' = Some 0
      \<and> PortName (heap m_two_opens ! 0) = ''COM3''
      \<and> \<not> closed (heap m_two_opens ! 0)
      \<and> sessions m_two_opens ''COM3'' = Some 1
      \<and> session_at m_two_opens 0 = Some (heap m_two_opens ! 0)"
    unfolding m_two_opens_eq OpenPort_m_one_open by (simp add: session_at_def)
  have "\<not> index_consistent m_two_opens"
  proof
    assume "index_consistent m_two_opens"
    then have "\<exists>s. session_at m_two_opens 0 = Some s \<and> ID s = ''id-1''
                 \<and> sessions m_two_opens (PortName s) = Some 0"
      using facts unfolding index_consistent_def by blast
    with facts show False by auto
  qed
  with facts show ?thesis by blast
qed


theorem C2_stale_id_after_shared_open_witness:
  "sessionsByID m_two_opens ''id-1'' \<noteq> sessions m_two_opens ''COM3''"
  using C2_stale_id_after_shared_open by simp

lemma close_chans_open:
  "distinct rs \<Longrightarrow> (\<forall>c\<in>set rs. c < length cs \<and> \<not> chan_closed (cs ! c)) \<Longrightarrow>
   \<exists>cs'. close_chans cs rs = (cs', True) \<and> length cs' = length cs
     \<and> (\<forall>c<length cs. cs' ! c = (if c \<in> set rs then (cs ! c)\<lparr>chan_closed := True\<rparr> else cs ! c))"
proof (induction rs arbitrary: cs)
  case Nil
  then show ?case by simp
next
  case (Cons c rest)
  let ?cs1 = "cs[c := (cs ! c)\<lparr>chan_closed := True\<rparr>]"
  from Cons.prems have c: "c < length cs" "\<not> chan_closed (cs ! c)" "c \<notin> set rest" "distinct rest"
    by auto
  have "\<forall>d\<in>set rest. d < length ?cs1 \<and> \<not> chan_closed (?cs1 ! d)"
    using Cons.prems c by (auto simp: nth_list_update)
  from Cons.IH [OF c(4) this]
  obtain cs' where cs': "close_chans ?cs1 rest = (cs', True)" "length cs' = length ?cs1"
    "\<forall>d<length ?cs1. cs' ! d = (if d \<in> set rest then (?cs1 ! d)\<lparr>chan_closed := True\<rparr> else ?cs1 ! d)"
    by blast
  have "close_chans cs (c # rest) = (cs', True)"
    using c cs'(1) by simp
  moreover have "length cs' = length cs" using cs'(2) by simp
  moreover have "\<forall>d<length cs. cs' ! d =
      (if d \<in> set (c # rest) then (cs ! d)\<lparr>chan_closed := True\<rparr> else cs ! d)"
    using cs'(3) c by (auto simp: nth_list_update)
  ultimately show ?case by blast
qed

lemma closeSessionLocked_open:
  assumes s: "session_at m p = Some s"
    and rs: "distinct (readers s)"
      "\<forall>c\<in>set (readers s). c < length (chans m) \<and> \<not> chan_closed (chans m ! c)"
  shows "\<exists>m'. closeSessionLocked m p ce =
            ((case port s of None \<Rightarrow> None | Some h \<Rightarrow> map_option DriverError ce), m')
          \<and> sessions m' = (sessions m)(PortName s := None)
          \<and> sessionsByID m' = (sessionsByID m)(ID s := None)
          \<and> heap m' = (heap m)[p := s\<lparr>closed := True, readers := []\<rparr>]
          \<and> length (chans m') = length (chans m)
          \<and> (\<forall>c<length (chans m). chans m' ! c =
                (if c \<in> set (readers s) then (chans m ! c)\<lparr>chan_closed := True\<rparr>
                 else chans m ! c))
          \<and> allowSharedAccess m' = allowSharedAccess m \<and> defaultConfig m' = defaultConfig m"
proof -
  from s have p: "p < length (heap m)" "heap m ! p = s"
    by (auto simp: session_at_def split: if_splits)
  from close_chans_open [OF rs]
  obtain cs' where cs': "close_chans (chans m) (readers s) = (cs', True)"
    "length cs' = length (chans m)"
    "\<forall>c<length (chans m). cs' ! c =
        (if c \<in> set (readers s) then (chans m ! c)\<lparr>chan_closed := True\<rparr> else chans m ! c)"
    by blast
  show ?thesis
    using s p cs'
    by (simp add: closeSessionLocked_def upd_session_def Let_def)
qed

lemma heap_upd_session:
  "length (heap (upd_session m q f)) = length (heap m)"
  "p < length (heap m) \<Longrightarrow>
     heap (upd_session m q f) ! p = (if p = q then f (heap m ! p) else heap m ! p)"
  by (simp_all add: upd_session_def nth_list_update)

lemma upd_session_fields:
  "sessions (upd_session m q f) = sessions m"
  "sessionsByID (upd_session m q f) = sessionsByID m"
  "chans (upd_session m q f) = chans m"
  "allowSharedAccess (upd_session m q f) = allowSharedAccess m"
  by (simp_all add: upd_session_def)

subsection \<open>Well-formedness is kept by every call\<close>

lemma wfI:
  assumes "\<And>name p. sessions m name = Some p \<Longrightarrow>
             p < length (heap m) \<and> PortName (heap m ! p) = name"
    and "\<And>p. p < length (heap m) \<Longrightarrow> distinct (readers (heap m ! p))"
    and "\<And>p c. p < length (heap m) \<Longrightarrow> c \<in> set (readers (heap m ! p)) \<Longrightarrow>
             c < length (chans m) \<and> \<not> chan_closed (chans m ! c)"
    and "\<And>p q c. p < length (heap m) \<Longrightarrow> q < length (heap m) \<Longrightarrow> p \<noteq> q \<Longrightarrow>
             c \<in> set (readers (heap m ! p)) \<Longrightarrow> c \<notin> set (readers (heap m ! q))"
  shows "wf m"
  unfolding wf_def
proof (intro conjI allI impI ballI)
  fix name p assume "sessions m name = Some p"
  from assms(1) [OF this]
  show "p < length (heap m)" "PortName (heap m ! p) = name" by simp_all
next
  fix p assume "p < length (heap m)"
  from assms(2) [OF this] show "distinct (readers (heap m ! p))" .
next
  fix p c assume "p < length (heap m)" "c \<in> set (readers (heap m ! p))"
  from assms(3) [OF this]
  show "c < length (chans m)" "\<not> chan_closed (chans m ! c)" by simp_all
next
  fix p q assume pq: "p < length (heap m)" "q < length (heap m)" "p \<noteq> q"
  from assms(4) [OF pq]
  show "set (readers (heap m ! p)) \<inter> set (readers (heap m ! q)) = {}" by blast
qed

lemma wf_index:
  "wf m \<Longrightarrow> sessions m name = Some p \<Longrightarrow> p < length (heap m) \<and> PortName (heap m ! p) = name"
  unfolding wf_def by blast

lemma wf_distinct: "wf m \<Longrightarrow> p < length (heap m) \<Longrightarrow> distinct (readers (heap m ! p))"
  unfolding wf_def by blast

lemma wf_open:
  "wf m \<Longrightarrow> p < length (heap m) \<Longrightarrow> c \<in> set (readers (heap m ! p)) \<Longrightarrow>
   c < length (chans m) \<and> \<not> chan_closed (chans m ! c)"
  unfolding wf_def by blast

lemma wf_disjoint:
  "wf m \<Longrightarrow> p < length (heap m) \<Longrightarrow> q < length (heap m) \<Longrightarrow> p \<noteq> q \<Longrightarrow>
   c \<in> set (readers (heap m ! p)) \<Longrightarrow> c \<notin> set (readers (heap m ! q))"
  unfolding wf_def by blast

lemma wf_NewManager: "wf (NewManager allow cfg)"
  by (rule wfI) (simp_all add: NewManager_def)

lemma wf_shrink:
  assumes wf: "wf m"
    and idx: "\<And>name p. sessions m' name = Some p \<Longrightarrow> sessions m name = Some p"
    and len: "length (heap m') = length (heap m)" "length (chans m') = length (chans m)"
    and names: "\<And>p. p < length (heap m) \<Longrightarrow> PortName (heap m' ! p) = PortName (heap m ! p)"
    and dist: "\<And>p. p < length (heap m) \<Longrightarrow> distinct (readers (heap m' ! p))"
    and sub: "\<And>p. p < length (heap m) \<Longrightarrow>
                set (readers (heap m' ! p)) \<subseteq> set (readers (heap m ! p))"
    and opn: "\<And>p c. p < length (heap m) \<Longrightarrow> c \<in> set (readers (heap m' ! p)) \<Longrightarrow>
                \<not> chan_closed (chans m' ! c)"
  shows "wf m'"
proof (rule wfI)
  fix name p assume "sessions m' name = Some p"
  then have "sessions m name = Some p" by (rule idx)
  from wf_index [OF wf this] have "p < length (heap m)" "PortName (heap m ! p) = name"
    by simp_all
  with names [of p] len show "p < length (heap m') \<and> PortName (heap m' ! p) = name" by simp
next
  fix p assume "p < length (heap m')"
  with len dist [of p] show "distinct (readers (heap m' ! p))" by simp
next
  fix p c assume p: "p < length (heap m')" and c: "c \<in> set (readers (heap m' ! p))"
  from p len have p': "p < length (heap m)" by simp
  from sub [OF p'] c have "c \<in> set (readers (heap m ! p))" by blast
  from wf_open [OF wf p' this] have "c < length (chans m)" by simp
  with opn [OF p' c] len show "c < length (chans m') \<and> \<not> chan_closed (chans m' ! c)" by simp
next
  fix p q c assume pq: "p < length (heap m')" "q < length (heap m')" "p \<noteq> q"
    and c: "c \<in> set (readers (heap m' ! p))"
  from pq len have p': "p < length (heap m)" and q': "q < length (heap m)" by simp_all
  from sub [OF p'] c have "c \<in> set (readers (heap m ! p))" by blast
  from wf_disjoint [OF wf p' q' pq(3) this] sub [OF q']
  show "c \<notin> set (readers (heap m' ! q))" by blast
qed

lemma wf_upd_session:
  assumes wf: "wf m" and f: "\<And>s. PortName (f s) = PortName s" "\<And>s. readers (f s) = readers s"
  shows "wf (upd_session m p f)"
proof (rule wf_shrink [OF wf])
  fix q c assume q: "q < length (heap m)" and c: "c \<in> set (readers (heap (upd_session m p f) ! q))"
  from c q f have "c \<in> set (readers (heap m ! q))"
    by (simp add: heap_upd_session split: if_splits)
  from wf_open [OF wf q this] show "\<not> chan_closed (chans (upd_session m p f) ! c)"
    by (simp add: upd_session_fields)
next
  fix q assume q: "q < length (heap m)"
  from wf_distinct [OF wf q] q f show "distinct (readers (heap (upd_session m p f) ! q))"
    by (auto simp: heap_upd_session)
  from q f show "set (readers (heap (upd_session m p f) ! q)) \<subseteq> set (readers (heap m ! q))"
    by (simp add: heap_upd_session)
  from q f show "PortName (heap (upd_session m p f) ! q) = PortName (heap m ! q)"
    by (simp add: heap_upd_session)
qed (simp_all add: heap_upd_session upd_session_fields)

lemma wf_chans_buffers:
  assumes wf: "wf m" and len: "length cs = length (chans m)"
    and cl: "\<And>c. c < length (chans m) \<Longrightarrow> chan_closed (cs ! c) = chan_closed (chans m ! c)"
  shows "wf (m\<lparr>chans := cs\<rparr>)"
proof (rule wf_shrink [OF wf])
  fix q c assume q: "q < length (heap m)" and c: "c \<in> set (readers (heap (m\<lparr>chans := cs\<rparr>) ! q))"
  then have "c \<in> set (readers (heap m ! q))" by simp
  from wf_open [OF wf q this] cl [of c] show "\<not> chan_closed (chans (m\<lparr>chans := cs\<rparr>) ! c)"
    by simp
next
  fix q assume q: "q < length (heap m)"
  from wf_distinct [OF wf q] show "distinct (readers (heap (m\<lparr>chans := cs\<rparr>) ! q))" by simp
qed (simp_all add: len)

lemma try_send_all_closed:
  "try_send_all cs subs v = (cs', ok) \<Longrightarrow>
   length cs' = length cs \<and> (\<forall>c<length cs. chan_closed (cs' ! c) = chan_closed (cs ! c))"
proof (induction subs arbitrary: cs)
  case Nil
  then show ?case by simp
next
  case (Cons c rest)
  show ?case
  proof (cases "c < length cs \<and> \<not> chan_closed (cs ! c)
                 \<and> length (chan_buf (cs ! c)) < chan_cap (cs ! c)")
    case True
    let ?cs1 = "cs[c := (cs ! c)\<lparr>chan_buf := chan_buf (cs ! c) @ [v]\<rparr>]"
    from True Cons.prems have "try_send_all ?cs1 rest v = (cs', ok)" by simp
    from Cons.IH [OF this] True show ?thesis by (auto simp: nth_list_update)
  next
    case False
    show ?thesis
    proof (cases "c < length cs \<and> chan_closed (cs ! c)")
      case True
      with Cons.prems show ?thesis by auto
    next
      case open_or_nil: False
      with False Cons.prems have "try_send_all cs rest v = (cs', ok)"
        by (auto split: if_splits)
      from Cons.IH [OF this] show ?thesis .
    qed
  qed
qed

lemma wf_new_session:
  assumes wf: "wf m" and s: "PortName s = pname" "readers s = []"
  shows "wf (m\<lparr>heap := heap m @ [s], sessions := (sessions m)(pname \<mapsto> length (heap m)),
               sessionsByID := (sessionsByID m)(k \<mapsto> length (heap m))\<rparr>)"
    (is "wf ?m'")
proof (rule wfI)
  fix name p assume a: "sessions ?m' name = Some p"
  show "p < length (heap ?m') \<and> PortName (heap ?m' ! p) = name"
  proof (cases "name = pname")
    case True
    with a have "p = length (heap m)" by simp
    with True s show ?thesis by simp
  next
    case False
    with a have "sessions m name = Some p" by simp
    from wf_index [OF wf this] show ?thesis by (simp add: nth_append)
  qed
next
  fix p assume "p < length (heap ?m')"
  then consider "p < length (heap m)" | "p = length (heap m)" by fastforce
  then show "distinct (readers (heap ?m' ! p))"
  proof cases
    case 1
    with wf_distinct [OF wf 1] show ?thesis by (simp add: nth_append)
  next
    case 2
    with s show ?thesis by simp
  qed
next
  fix p c assume p: "p < length (heap ?m')" and c: "c \<in> set (readers (heap ?m' ! p))"
  from p consider "p < length (heap m)" | "p = length (heap m)" by fastforce
  then show "c < length (chans ?m') \<and> \<not> chan_closed (chans ?m' ! c)"
  proof cases
    case 1
    with c have "c \<in> set (readers (heap m ! p))" by (simp add: nth_append)
    from wf_open [OF wf 1 this] show ?thesis by simp
  next
    case 2
    with c s show ?thesis by simp
  qed
next
  fix p q c assume pq: "p < length (heap ?m')" "q < length (heap ?m')" "p \<noteq> q"
    and c: "c \<in> set (readers (heap ?m' ! p))"
  from pq(1) consider "p < length (heap m)" | "p = length (heap m)" by fastforce
  then show "c \<notin> set (readers (heap ?m' ! q))"
  proof cases
    case 1
    with c have cp: "c \<in> set (readers (heap m ! p))" by (simp add: nth_append)
    from pq(2) consider "q < length (heap m)" | "q = length (heap m)" by fastforce
    then show ?thesis
    proof cases
      case q1: 1
      from wf_disjoint [OF wf 1 q1 pq(3) cp] q1 show ?thesis by (simp add: nth_append)
    next
      case 2
      with s show ?thesis by simp
    qed
  next
    case 2
    with c s show ?thesis by simp
  qed
qed

lemma wf_OpenPort: "wf m \<Longrightarrow> wf (snd (OpenPort m pname config clientID exclusive env))"
  by (simp add: OpenPort_def Let_def wf_new_session split: option.split sum.split)

lemma wf_closeSessionLocked: "wf m \<Longrightarrow> wf (snd (closeSessionLocked m p ce))"
proof (cases "session_at m p")
  case None
  assume "wf m"
  with None show ?thesis by (simp add: closeSessionLocked_def)
next
  case (Some s)
  assume wf: "wf m"
  from Some have p: "p < length (heap m)" "heap m ! p = s"
    by (auto simp: session_at_def split: if_splits)
  from wf_distinct [OF wf p(1)] p(2) have d: "distinct (readers s)" by simp
  have o: "\<forall>c\<in>set (readers s). c < length (chans m) \<and> \<not> chan_closed (chans m ! c)"
    using wf_open [OF wf p(1)] p(2) by blast
  from closeSessionLocked_open [OF Some d o, of ce]
  obtain m' where m': "closeSessionLocked m p ce =
            ((case port s of None \<Rightarrow> None | Some h \<Rightarrow> map_option DriverError ce), m')"
      "sessions m' = (sessions m)(PortName s := None)"
      "heap m' = (heap m)[p := s\<lparr>closed := True, readers := []\<rparr>]"
      "length (chans m') = length (chans m)"
      "\<forall>c<length (chans m). chans m' ! c =
                (if c \<in> set (readers s) then (chans m ! c)\<lparr>chan_closed := True\<rparr>
                 else chans m ! c)"
    by blast
  have "wf m'"
  proof (rule wf_shrink [OF wf])
    fix name q assume "sessions m' name = Some q"
    with m'(2) show "sessions m name = Some q" by (simp split: if_splits)
  next
    show "length (heap m') = length (heap m)" "length (chans m') = length (chans m)"
      using m'(3,4) by simp_all
  next
    fix q assume q: "q < length (heap m)"
    from m'(3) p q show "PortName (heap m' ! q) = PortName (heap m ! q)"
      by (auto simp: nth_list_update)
    from m'(3) p q wf_distinct [OF wf q] show "distinct (readers (heap m' ! q))"
      by (auto simp: nth_list_update)
    from m'(3) p q show "set (readers (heap m' ! q)) \<subseteq> set (readers (heap m ! q))"
      by (auto simp: nth_list_update)
  next
    fix q c assume q: "q < length (heap m)" and c: "c \<in> set (readers (heap m' ! q))"
    from c m'(3) p q have qp: "q \<noteq> p" and c': "c \<in> set (readers (heap m ! q))"
      by (auto simp: nth_list_update split: if_splits)
    from wf_open [OF wf q c'] have ok: "c < length (chans m)" "\<not> chan_closed (chans m ! c)"
      by simp_all
    from wf_disjoint [OF wf q p(1) qp c'] p(2) have "c \<notin> set (readers s)" by simp
    with m'(5) ok show "\<not> chan_closed (chans m' ! c)" by simp
  qed
  with m'(1) show ?thesis by simp
qed

lemma wf_ClosePort: "wf m \<Longrightarrow> wf (snd (ClosePort m pname sid ce))"
  by (simp add: ClosePort_def wf_closeSessionLocked split: option.split)

lemma wf_CloseAll: "wf m \<Longrightarrow> wf (snd (CloseAll m order))"
proof (induction order arbitrary: m)
  case Nil
  then show ?case by simp
next
  case (Cons pname order)
  show ?case
  proof (cases "sessions m pname")
    case None
    with Cons show ?thesis by simp
  next
    case (Some q)
    obtain r m' where r: "closeSessionLocked m q None = (r, m')"
      by (cases "closeSessionLocked m q None")
    from wf_closeSessionLocked [OF Cons.prems, of q None] r have "wf m'" by simp
    with Some r Cons.IH [of m'] show ?thesis by (cases r) simp_all
  qed
qed

lemma wf_Write: "wf m \<Longrightarrow> wf (snd (Write m pname sid data n werr now))"
  by (simp add: Write_def wf_upd_session split: sum.split option.split)

lemma wf_Configure: "wf m \<Longrightarrow> wf (snd (Configure m pname sid config e1 e2))"
  by (simp add: Configure_def wf_upd_session split: sum.split option.split)

lemma wf_try_send_all:
  assumes "wf m"
  shows "wf (m\<lparr>chans := fst (try_send_all (chans m) rs v)\<rparr>)"
proof -
  obtain cs ok where t: "try_send_all (chans m) rs v = (cs, ok)"
    by (cases "try_send_all (chans m) rs v")
  from try_send_all_closed [OF t] have "length cs = length (chans m)"
    "\<And>c. c < length (chans m) \<Longrightarrow> chan_closed (cs ! c) = chan_closed (chans m ! c)"
    by simp_all
  from wf_chans_buffers [OF assms this] t show ?thesis by simp
qed

lemma wf_Read: "wf m \<Longrightarrow> wf (snd (Read m pname sid maxBytes input rerr now))"
proof -
  assume wf: "wf m"
  have stats: "wf (upd_session m p (\<lambda>s. s\<lparr>Statistics := g s\<rparr>))" for p g
    using wf by (simp add: wf_upd_session)
  have sent: "wf ((upd_session m p (\<lambda>s. s\<lparr>Statistics := g s\<rparr>))
                   \<lparr>chans := fst (try_send_all
                      (chans (upd_session m p (\<lambda>s. s\<lparr>Statistics := g s\<rparr>))) rs v)\<rparr>)"
    for p g rs v
    by (rule wf_try_send_all [OF stats])
  show ?thesis
  proof (cases "ValidateSession m pname sid")
    case (Inl e)
    with wf show ?thesis by (simp add: Read_def)
  next
    case (Inr p)
    show ?thesis
    proof (cases "maxBytes < 0 \<or> port (heap m ! p) = None")
      case True
      with Inr wf show ?thesis by (auto simp: Read_def)
    next
      case False
      then obtain h where h: "port (heap m ! p) = Some h" "\<not> maxBytes < 0" by auto
      show ?thesis
      proof (cases rerr)
        case (Some msg)
        with Inr h stats show ?thesis by (simp add: Read_def)
      next
        case None
        let ?data = "take (nat maxBytes) input"
        let ?m1 = "upd_session m p
                     (\<lambda>s. s\<lparr>Statistics := (Statistics s)
                        \<lparr>BytesReceived := BytesReceived (Statistics s) + of_nat (length ?data),
                         LastActivity := now\<rparr>\<rparr>)"
        have w1: "wf ?m1" by (rule stats)
        obtain cs ok where t: "try_send_all (chans ?m1) (readers (heap ?m1 ! p)) ?data = (cs, ok)"
          by (cases "try_send_all (chans ?m1) (readers (heap ?m1 ! p)) ?data")
        from wf_try_send_all [OF w1, of "readers (heap ?m1 ! p)" ?data] t
        have w2: "wf (?m1\<lparr>chans := cs\<rparr>)" by simp
        from Inr h None t w1 w2 show ?thesis
          by (cases ok; cases "length ?data > 0") (simp_all add: Read_def Let_def)
      qed
    qed
  qed
qed

lemma ValidateSession_Inr:
  "ValidateSession m pname sid = Inr p \<Longrightarrow>
   sessions m pname = Some p \<and> p < length (heap m) \<and> ID (heap m ! p) = sid
   \<and> \<not> closed (heap m ! p)"
  by (auto simp: ValidateSession_def session_at_def split: option.splits if_splits)

lemma wf_SubscribeToReads: "wf m \<Longrightarrow> wf (snd (SubscribeToReads m pname sid))"
proof (cases "ValidateSession m pname sid")
  case (Inl e)
  assume "wf m"
  with Inl show ?thesis by (simp add: SubscribeToReads_def)
next
  case (Inr p)
  assume wf: "wf m"
  let ?ch = "length (chans m)"
  let ?m' = "upd_session (m\<lparr>chans := chans m @ [make_chan 100]\<rparr>) p
               (\<lambda>s. s\<lparr>readers := readers s @ [?ch]\<rparr>)"
  from ValidateSession_Inr [OF Inr] have p: "p < length (heap m)" by simp
  have hp: "heap ?m' ! q = (if q = p then (heap m ! q)\<lparr>readers := readers (heap m ! q) @ [?ch]\<rparr>
                            else heap m ! q)" if "q < length (heap m)" for q
    using that by (simp add: upd_session_def nth_list_update)
  have len: "length (heap ?m') = length (heap m)" "chans ?m' = chans m @ [make_chan 100]"
    "sessions ?m' = sessions m"
    by (simp_all add: upd_session_def)
  have fresh: "?ch \<notin> set (readers (heap m ! q))" if "q < length (heap m)" for q
    using wf_open [OF wf that, of ?ch] by blast
  have "wf ?m'"
  proof (rule wfI)
    fix name q assume "sessions ?m' name = Some q"
    with len have "sessions m name = Some q" by simp
    from wf_index [OF wf this] hp [of q] len
    show "q < length (heap ?m') \<and> PortName (heap ?m' ! q) = name" by auto
  next
    fix q assume "q < length (heap ?m')"
    with len have q: "q < length (heap m)" by simp
    from wf_distinct [OF wf q] fresh [OF q] hp [OF q]
    show "distinct (readers (heap ?m' ! q))" by auto
  next
    fix q c assume "q < length (heap ?m')" and c: "c \<in> set (readers (heap ?m' ! q))"
    with len have q: "q < length (heap m)" by simp
    from c hp [OF q] consider "c \<in> set (readers (heap m ! q))" | "c = ?ch"
      by (auto split: if_splits)
    then show "c < length (chans ?m') \<and> \<not> chan_closed (chans ?m' ! c)"
    proof cases
      case 1
      from wf_open [OF wf q 1] len show ?thesis by (simp add: nth_append)
    next
      case 2
      with len show ?thesis by (simp add: make_chan_def)
    qed
  next
    fix q q' c assume "q < length (heap ?m')" "q' < length (heap ?m')" and ne: "q \<noteq> q'"
      and c: "c \<in> set (readers (heap ?m' ! q))"
    with len have q: "q < length (heap m)" and q': "q' < length (heap m)" by simp_all
    show "c \<notin> set (readers (heap ?m' ! q'))"
    proof (cases "c = ?ch")
      case True
      with c hp [OF q] fresh [OF q] have "q = p" by (auto split: if_splits)
      with ne have "q' \<noteq> p" by simp
      with hp [OF q'] fresh [OF q'] True show ?thesis by simp
    next
      case False
      with c hp [OF q] have "c \<in> set (readers (heap m ! q))" by (auto split: if_splits)
      from wf_disjoint [OF wf q q' ne this] hp [OF q'] False show ?thesis by auto
    qed
  qed
  with Inr show ?thesis by (simp add: SubscribeToReads_def Let_def)
qed

lemma wf_UnsubscribeFromReads: "wf m \<Longrightarrow> wf (snd (UnsubscribeFromReads m pname sid ch))"
proof (cases "ValidateSession m pname sid")
  case (Inl e)
  assume "wf m"
  with Inl show ?thesis by (simp add: UnsubscribeFromReads_def)
next
  case (Inr p)
  assume wf: "wf m"
  from ValidateSession_Inr [OF Inr] have p: "p < length (heap m)" by simp
  show ?thesis
  proof (cases "ch \<in> set (readers (heap m ! p))")
    case False
    with Inr wf show ?thesis by (simp add: UnsubscribeFromReads_def)
  next
    case True
    from wf_open [OF wf p True] have ch: "ch < length (chans m)" "\<not> chan_closed (chans m ! ch)"
      by simp_all
    let ?cs = "(chans m)[ch := (chans m ! ch)\<lparr>chan_closed := True\<rparr>]"
    let ?m' = "upd_session (m\<lparr>chans := ?cs\<rparr>) p (\<lambda>s. s\<lparr>readers := remove1 ch (readers s)\<rparr>)"
    have hp: "heap ?m' ! q = (if q = p then (heap m ! q)\<lparr>readers := remove1 ch (readers (heap m ! q))\<rparr>
                              else heap m ! q)" if "q < length (heap m)" for q
      using that by (simp add: upd_session_def nth_list_update)
    have "wf ?m'"
    proof (rule wf_shrink [OF wf])
      fix q assume q: "q < length (heap m)"
      from hp [OF q] show "PortName (heap ?m' ! q) = PortName (heap m ! q)" by simp
      from hp [OF q] wf_distinct [OF wf q] show "distinct (readers (heap ?m' ! q))" by auto
      from hp [OF q] set_remove1_subset [of ch "readers (heap m ! q)"]
      show "set (readers (heap ?m' ! q)) \<subseteq> set (readers (heap m ! q))"
        by auto
    next
      fix q c assume q: "q < length (heap m)" and c: "c \<in> set (readers (heap ?m' ! q))"
      have "c \<noteq> ch"
      proof (cases "q = p")
        case True
        with c hp [OF q] wf_distinct [OF wf q] show ?thesis by auto
      next
        case False
        with c hp [OF q] have "c \<in> set (readers (heap m ! q))" by simp
        from wf_disjoint [OF wf q p False this] \<open>ch \<in> set (readers (heap m ! p))\<close>
        show ?thesis by blast
      qed
      moreover from c hp [OF q] set_remove1_subset [of ch "readers (heap m ! q)"]
      have "c \<in> set (readers (heap m ! q))"
        by (auto split: if_splits)
      from wf_open [OF wf q this] have "\<not> chan_closed (chans m ! c)" by simp
      ultimately show "\<not> chan_closed (chans ?m' ! c)" by (simp add: upd_session_def)
    qed (simp_all add: upd_session_def)
    with Inr True ch show ?thesis by (simp add: UnsubscribeFromReads_def)
  qed
qed

lemma wf_step: "wf m \<Longrightarrow> wf (step m c)"
proof (cases c)
  case (Receive ch)
  assume "wf m"
  then have "wf (m\<lparr>chans := chan_recv (chans m) ch\<rparr>)"
    by (rule wf_chans_buffers) (auto simp: chan_recv_def nth_list_update)
  with Receive show ?thesis by simp
qed (simp_all add: wf_OpenPort wf_ClosePort wf_CloseAll wf_Write wf_Read wf_Configure
      wf_SubscribeToReads wf_UnsubscribeFromReads)

lemma wf_run: "wf m \<Longrightarrow> wf (run m cs)"
  by (induction cs arbitrary: m) (simp_all add: wf_step)

lemma wf_reachable: "wf (run (NewManager allow cfg) cs)"
  by (rule wf_run [OF wf_NewManager])

text \<open>
  C3 (as the claim states it, refuted): after a close with a wrong id was answered with
  \<^verbatim>\<open>ErrInvalidSession\<close>, the close with the right id returns the error of the driver's
  \<^verbatim>\<open>Close\<close> when the driver fails to close the handle; the call does not succeed then.
\<close>

theorem C3_close_returns_driver_error:
  "ClosePort m_one_open ''COM3'' ''wrong'' None = (Some ErrInvalidSession, m_one_open)
   \<and> ID (heap m_one_open ! 0) = ''id-1'' \<and> sessions m_one_open ''COM3'' = Some 0
   \<and> fst (ClosePort (snd (ClosePort m_one_open ''COM3'' ''wrong'' None)) ''COM3'' ''id-1''
            (Some ''device gone''))
       = Some (DriverError ''device gone'')"
  by (simp add: m_one_open_eq ClosePort_def closeSessionLocked_def session_at_def
      upd_session_def)

lemma ClosePort_wf:
  assumes wf: "wf m" and held: "sessions m name = Some p"
  shows "(ID (heap m ! p) \<noteq> sid \<longrightarrow> ClosePort m name sid ce = (Some ErrInvalidSession, m))
    \<and> (\<exists>m'. ClosePort m name (ID (heap m ! p)) ce' =
               ((case port (heap m ! p) of None \<Rightarrow> None
                 | Some h \<Rightarrow> map_option DriverError ce'), m')
           \<and> sessions m' name = None \<and> sessionsByID m' (ID (heap m ! p)) = None
           \<and> (\<forall>c\<in>set (readers (heap m ! p)). chan_closed (chans m' ! c))
           \<and> heap m' = (heap m)[p := (heap m ! p)\<lparr>closed := True, readers := []\<rparr>])"
proof -
  let ?s = "heap m ! p"
  from wf_index [OF wf held] have p: "p < length (heap m)" "PortName ?s = name" by simp_all
  then have at: "session_at m p = Some ?s" by (simp add: session_at_def)
  have d: "distinct (readers ?s)" by (rule wf_distinct [OF wf p(1)])
  have o: "\<forall>c\<in>set (readers ?s). c < length (chans m) \<and> \<not> chan_closed (chans m ! c)"
    using wf_open [OF wf p(1)] by blast
  from closeSessionLocked_open [OF at d o, of ce']
  obtain m' where m': "closeSessionLocked m p ce' =
            ((case port ?s of None \<Rightarrow> None | Some h \<Rightarrow> map_option DriverError ce'), m')"
      "sessions m' = (sessions m)(PortName ?s := None)"
      "sessionsByID m' = (sessionsByID m)(ID ?s := None)"
      "heap m' = (heap m)[p := ?s\<lparr>closed := True, readers := []\<rparr>]"
      "\<forall>c<length (chans m). chans m' ! c =
                (if c \<in> set (readers ?s) then (chans m ! c)\<lparr>chan_closed := True\<rparr>
                 else chans m ! c)"
    by blast
  have "ClosePort m name (ID ?s) ce' =
            ((case port ?s of None \<Rightarrow> None | Some h \<Rightarrow> map_option DriverError ce'), m')"
    using held at m'(1) by (simp add: ClosePort_def)
  moreover have "sessions m' name = None" "sessionsByID m' (ID ?s) = None"
    using m'(2,3) p(2) by simp_all
  moreover have "\<forall>c\<in>set (readers ?s). chan_closed (chans m' ! c)"
    using m'(5) o by simp
  moreover have "ID ?s \<noteq> sid \<longrightarrow> ClosePort m name sid ce = (Some ErrInvalidSession, m)"
    using held at by (simp add: ClosePort_def)
  ultimately show ?thesis using m'(4) by blast
qed

text \<open>
  C3 (amended): in every state \<open>m\<close> that the manager reaches by calls of its operations,
  \<^verbatim>\<open>ClosePort\<close> returns \<^verbatim>\<open>ErrPortNotOpen\<close> when the name index has no entry for the name and
  \<^verbatim>\<open>ErrInvalidSession\<close> when the id of the entry's session differs from the id given; in
  both cases the whole manager state (indexes, sessions, channels) is unchanged.  A
  following \<^verbatim>\<open>ClosePort\<close> with the id of the session marks the session closed, closes
  every subscriber channel and empties the subscriber list, removes the session from
  both indexes, and returns what the driver's \<^verbatim>\<open>Close\<close> returned: it succeeds exactly when
  the driver closed the handle without error (or the session has no handle).
\<close>

theorem C3_ClosePort_errors_then_close:
  assumes m: "m = run (NewManager allow cfg) calls"
  shows
    "(sessions m name = None \<longrightarrow> ClosePort m name sid ce = (Some ErrPortNotOpen, m))
     \<and> (sessions m name = Some p \<and> ID (heap m ! p) \<noteq> sid \<longrightarrow>
          ClosePort m name sid ce = (Some ErrInvalidSession, m)
          \<and> (\<exists>m'. ClosePort (snd (ClosePort m name sid ce)) name (ID (heap m ! p)) ce' =
                     ((case port (heap m ! p) of None \<Rightarrow> None
                       | Some h \<Rightarrow> map_option DriverError ce'), m')
                 \<and> sessions m' name = None \<and> sessionsByID m' (ID (heap m ! p)) = None
                 \<and> (\<forall>c\<in>set (readers (heap m ! p)). chan_closed (chans m' ! c))
                 \<and> closed (heap m' ! p) \<and> readers (heap m' ! p) = []))"
proof -
  have wf: "wf m" unfolding m by (rule wf_reachable)
  have not_open: "ClosePort m name sid ce = (Some ErrPortNotOpen, m)"
    if "sessions m name = None"
    using that by (simp add: ClosePort_def)
  have mismatch: "ClosePort m name sid ce = (Some ErrInvalidSession, m)
          \<and> (\<exists>m'. ClosePort (snd (ClosePort m name sid ce)) name (ID (heap m ! p)) ce' =
                     ((case port (heap m ! p) of None \<Rightarrow> None
                       | Some h \<Rightarrow> map_option DriverError ce'), m')
                 \<and> sessions m' name = None \<and> sessionsByID m' (ID (heap m ! p)) = None
                 \<and> (\<forall>c\<in>set (readers (heap m ! p)). chan_closed (chans m' ! c))
                 \<and> closed (heap m' ! p) \<and> readers (heap m' ! p) = [])"
    if held: "sessions m name = Some p" and ne: "ID (heap m ! p) \<noteq> sid"
  proof -
    from wf_index [OF wf held] have p: "p < length (heap m)" by simp
    from ClosePort_wf [OF wf held, of sid ce ce'] ne
    obtain m' where inv: "ClosePort m name sid ce = (Some ErrInvalidSession, m)"
      and m': "ClosePort m name (ID (heap m ! p)) ce' =
               ((case port (heap m ! p) of None \<Rightarrow> None
                 | Some h \<Rightarrow> map_option DriverError ce'), m')"
        "sessions m' name = None" "sessionsByID m' (ID (heap m ! p)) = None"
        "\<forall>c\<in>set (readers (heap m ! p)). chan_closed (chans m' ! c)"
        "heap m' = (heap m)[p := (heap m ! p)\<lparr>closed := True, readers := []\<rparr>]"
      by blast
    from m'(5) p have "closed (heap m' ! p)" "readers (heap m' ! p) = []" by simp_all
    with inv m'(1-4) show ?thesis by auto
  qed
  from not_open mismatch show ?thesis by blast
qed

lemma m_subscribed_eq:
  "m_subscribed =
     \<lparr>sessions = [''COM3'' \<mapsto> 0], sessionsByID = [''id-1'' \<mapsto> 0],
      allowSharedAccess = False, defaultConfig = DefaultConfig,
      heap = [\<lparr>ID = ''id-1'', PortName = ''COM3'', ClientID = ''a'', Exclusive = True,
               Config = DefaultConfig,
               Statistics = \<lparr>BytesSent = 0, BytesReceived = 0, Errors = 0,
                             OpenedAt = 10, LastActivity = 10\<rparr>,
               port = Some 7, closed = False, readers = [0]\<rparr>],
      chans = [\<lparr>chan_buf = [], chan_cap = 100, chan_closed = False\<rparr>]\<rparr>"
  by (simp add: m_subscribed_def OpenPort_def NewManager_def open_env_1_def
      Validate_DefaultConfig ReadTimeout_DefaultConfig SubscribeToReads_def
      ValidateSession_def session_at_def upd_session_def make_chan_def Let_def)

theorem C3_ClosePort_errors_then_close_witness:
  "ClosePort m_subscribed ''COM4'' ''id-1'' None = (Some ErrPortNotOpen, m_subscribed)
   \<and> ClosePort m_subscribed ''COM3'' ''wrong'' None = (Some ErrInvalidSession, m_subscribed)
   \<and> (\<exists>m'. ClosePort (snd (ClosePort m_subscribed ''COM3'' ''wrong'' None)) ''COM3'' ''id-1'' None
              = (None, m')
          \<and> sessions m' ''COM3'' = None \<and> sessionsByID m' ''id-1'' = None
          \<and> chan_closed (chans m' ! 0)
          \<and> closed (heap m' ! 0) \<and> readers (heap m' ! 0) = [])"
proof -
  let ?s = "heap m_subscribed ! 0"
  note reach = m_subscribed_def
  have none: "sessions m_subscribed ''COM4'' = None" by (simp add: m_subscribed_eq)
  have held: "sessions m_subscribed ''COM3'' = Some 0 \<and> ID ?s \<noteq> ''wrong''"
    by (simp add: m_subscribed_eq)
  have s: "ID ?s = ''id-1''" "port ?s = Some 7" "readers ?s = [0]"
    by (simp_all add: m_subscribed_eq)
  have a: "ClosePort m_subscribed ''COM4'' ''id-1'' None = (Some ErrPortNotOpen, m_subscribed)"
    using C3_ClosePort_errors_then_close
            [OF reach, where name = "''COM4''" and sid = "''id-1''" and ce = None] none
    by blast
  from C3_ClosePort_errors_then_close
         [OF reach, where name = "''COM3''" and p = 0 and sid = "''wrong''" and ce = None
            and ce' = None] held
  have b: "ClosePort m_subscribed ''COM3'' ''wrong'' None = (Some ErrInvalidSession, m_subscribed)"
    and c: "\<exists>m'. ClosePort (snd (ClosePort m_subscribed ''COM3'' ''wrong'' None)) ''COM3'' (ID ?s) None =
                     ((case port ?s of None \<Rightarrow> None | Some h \<Rightarrow> map_option DriverError None), m')
                 \<and> sessions m' ''COM3'' = None \<and> sessionsByID m' (ID ?s) = None
                 \<and> (\<forall>c\<in>set (readers ?s). chan_closed (chans m' ! c))
                 \<and> closed (heap m' ! 0) \<and> readers (heap m' ! 0) = []"
    by blast+
  from c obtain m' where
     "ClosePort (snd (ClosePort m_subscribed ''COM3'' ''wrong'' None)) ''COM3'' ''id-1'' None = (None, m')"
     "sessions m' ''COM3'' = None" "sessionsByID m' ''id-1'' = None"
     "chan_closed (chans m' ! 0)"
     "closed (heap m' ! 0)" "readers (heap m' ! 0) = []"
    unfolding s by auto
  with a b show ?thesis by blast
qed

subsection \<open>Write statistics\<close>

lemma OpenPort_sent:
  "p < length (heap m) \<Longrightarrow>
   BytesSent (Statistics (heap (snd (OpenPort m pname config clientID exclusive env)) ! p))
     = BytesSent (Statistics (heap m ! p))"
  by (simp add: OpenPort_def Let_def nth_append split: option.split sum.split)

lemma closeSessionLocked_sent:
  "p < length (heap m) \<Longrightarrow>
   length (heap (snd (closeSessionLocked m q ce))) = length (heap m)
   \<and> BytesSent (Statistics (heap (snd (closeSessionLocked m q ce)) ! p))
     = BytesSent (Statistics (heap m ! p))"
  by (auto simp add: closeSessionLocked_def Let_def upd_session_def session_at_def
      nth_list_update split: option.split prod.split bool.split if_splits)

lemma ClosePort_sent:
  "p < length (heap m) \<Longrightarrow>
   BytesSent (Statistics (heap (snd (ClosePort m pname sid ce)) ! p))
     = BytesSent (Statistics (heap m ! p))"
  by (simp add: ClosePort_def closeSessionLocked_sent split: option.split)

lemma CloseAll_sent:
  "p < length (heap m) \<Longrightarrow>
   BytesSent (Statistics (heap (snd (CloseAll m order)) ! p))
     = BytesSent (Statistics (heap m ! p))"
proof (induction order arbitrary: m)
  case Nil
  then show ?case by simp
next
  case (Cons pname order)
  show ?case
  proof (cases "sessions m pname")
    case None
    with Cons show ?thesis by simp
  next
    case (Some q)
    obtain r m' where r: "closeSessionLocked m q None = (r, m')"
      by (cases "closeSessionLocked m q None")
    from closeSessionLocked_sent [OF Cons.prems, of q None] r
    have m': "length (heap m') = length (heap m)"
      "BytesSent (Statistics (heap m' ! p)) = BytesSent (Statistics (heap m ! p))"
      by simp_all
    show ?thesis
    proof (cases r)
      case None
      with Some r m' Cons.IH [of m'] Cons.prems show ?thesis by simp
    next
      case (Some err)
      with \<open>sessions m pname = Some q\<close> r m' show ?thesis by simp
    qed
  qed
qed


lemma Write_sent:
  "p < length (heap m) \<Longrightarrow>
   BytesSent (Statistics (heap (snd (Write m pname sid data n werr now)) ! p))
     = BytesSent (Statistics (heap m ! p))
       + word_of_int (sent_by m (CallWrite pname sid data n werr now) p)"
  by (auto simp: Write_def heap_upd_session split: sum.split option.split)

lemma Read_sent:
  "p < length (heap m) \<Longrightarrow>
   BytesSent (Statistics (heap (snd (Read m pname sid maxBytes input rerr now)) ! p))
     = BytesSent (Statistics (heap m ! p))"
  by (auto simp: Read_def Let_def heap_upd_session
      split: sum.split option.split prod.split bool.split)

lemma Configure_sent:
  "p < length (heap m) \<Longrightarrow>
   BytesSent (Statistics (heap (snd (Configure m pname sid config e1 e2)) ! p))
     = BytesSent (Statistics (heap m ! p))"
  by (auto simp: Configure_def heap_upd_session split: sum.split option.split)

lemma SubscribeToReads_sent:
  "p < length (heap m) \<Longrightarrow>
   BytesSent (Statistics (heap (snd (SubscribeToReads m pname sid)) ! p))
     = BytesSent (Statistics (heap m ! p))"
  by (auto simp: SubscribeToReads_def Let_def heap_upd_session split: sum.split)

lemma UnsubscribeFromReads_sent:
  "p < length (heap m) \<Longrightarrow>
   BytesSent (Statistics (heap (snd (UnsubscribeFromReads m pname sid ch)) ! p))
     = BytesSent (Statistics (heap m ! p))"
  by (auto simp: UnsubscribeFromReads_def heap_upd_session
      split: sum.split prod.split bool.split)

lemma step_sent:
  "p < length (heap m) \<Longrightarrow>
   BytesSent (Statistics (heap (step m c) ! p))
     = BytesSent (Statistics (heap m ! p)) + word_of_int (sent_by m c p)"
proof (cases c)
  case (CallWrite pname sid data n werr now)
  assume "p < length (heap m)"
  from Write_sent [OF this] CallWrite show ?thesis by simp
qed (simp_all add: OpenPort_sent ClosePort_sent CloseAll_sent Read_sent Configure_sent
      SubscribeToReads_sent UnsubscribeFromReads_sent)

lemma step_heap_length: "length (heap m) \<le> length (heap (step m c))"
proof (cases c)
  case (CallCloseAll order)
  have "length (heap (snd (CloseAll m order))) = length (heap m)"
  proof (induction order arbitrary: m)
    case Nil
    then show ?case by simp
  next
    case (Cons pname order)
    show ?case
    proof (cases "sessions m pname")
      case None
      with Cons show ?thesis by simp
    next
      case (Some q)
      obtain r m' where r: "closeSessionLocked m q None = (r, m')"
        by (cases "closeSessionLocked m q None")
      have "length (heap (snd (closeSessionLocked m q None))) = length (heap m)"
        by (simp add: closeSessionLocked_def Let_def upd_session_def
            split: option.split prod.split bool.split)
      with r have m': "length (heap m') = length (heap m)" by simp
      show ?thesis
        using Some r m' Cons.IH [of m'] by (cases r) simp_all
    qed
  qed
  with CallCloseAll show ?thesis by simp
qed (auto simp: OpenPort_def ClosePort_def closeSessionLocked_def Write_def Read_def
      Configure_def SubscribeToReads_def UnsubscribeFromReads_def Let_def upd_session_def
      split: option.split sum.split prod.split bool.split)

lemma run_sent:
  "p < length (heap m) \<Longrightarrow>
   BytesSent (Statistics (heap (run m cs) ! p))
     = BytesSent (Statistics (heap m ! p)) + word_of_int (sent_total m cs p)"
proof (induction cs arbitrary: m)
  case Nil
  then show ?case by simp
next
  case (Cons c cs)
  from Cons.prems step_heap_length [of m c] have "p < length (heap (step m c))" by simp
  from Cons.IH [OF this] step_sent [OF Cons.prems, of c]
  show ?case by (simp add: add.assoc)
qed


lemma uint_add_no_wrap:
  fixes a :: "64 word"
  assumes "0 \<le> t" "uint a + t < 2 ^ 64"
  shows "uint (a + word_of_int t) = uint a + t"
proof -
  have "a + word_of_int t = word_of_int (uint a + t)"
    by simp
  then have "uint (a + word_of_int t) = (uint a + t) mod 2 ^ 64"
    by (simp only: uint_word_of_int) simp
  also have "\<dots> = uint a + t"
    using assms by simp
  finally show ?thesis .
qed

lemma sent_by_nonneg: "io_ok c \<Longrightarrow> 0 \<le> sent_by m c p"
  by (cases c) (auto simp: Write_def split: sum.splits option.splits)

lemma sent_total_nonneg: "\<forall>c\<in>set cs. io_ok c \<Longrightarrow> 0 \<le> sent_total m cs p"
proof (induction cs arbitrary: m)
  case Nil
  show ?case by simp
next
  case (Cons c cs)
  from Cons.prems have "0 \<le> sent_by m c p" by (simp add: sent_by_nonneg)
  moreover from Cons.prems have "0 \<le> sent_total (step m c) cs p" by (simp add: Cons.IH)
  ultimately show ?case by simp
qed

lemma run_append: "run m (xs @ ys) = run (run m xs) ys"
  by (induction xs arbitrary: m) simp_all

lemma sent_total_append:
  "sent_total m (xs @ ys) p = sent_total m xs p + sent_total (run m xs) ys p"
  by (induction xs arbitrary: m) simp_all

lemma run_heap_length: "length (heap m) \<le> length (heap (run m cs))"
proof (induction cs arbitrary: m)
  case Nil
  show ?case by simp
next
  case (Cons c cs)
  from step_heap_length [of m c] Cons.IH [of "step m c"] show ?case by simp
qed

lemma run_sent_mono:
  assumes p: "p < length (heap m)"
    and ok: "\<forall>c\<in>set cs. io_ok c"
    and nc: "uint (BytesSent (Statistics (heap m ! p))) + sent_total m cs p < 2 ^ 64"
    and jk: "j \<le> k"
  shows "BytesSent (Statistics (heap (run m (take j cs)) ! p))
           \<le> BytesSent (Statistics (heap (run m (take k cs)) ! p))"
proof -
  define xs where "xs = take j cs"
  define ys where "ys = drop j (take k cs)"
  define zs where "zs = drop k cs"
  from jk have "take j (take k cs) = take j cs" by (simp add: min_def)
  then have tk: "take k cs = xs @ ys"
    unfolding xs_def ys_def by (metis append_take_drop_id)
  then have cs: "cs = xs @ ys @ zs"
    unfolding zs_def by (metis append_take_drop_id append_assoc)
  from ok cs have okx: "\<forall>c\<in>set xs. io_ok c" and oky: "\<forall>c\<in>set ys. io_ok c"
    and okz: "\<forall>c\<in>set zs. io_ok c" by auto
  let ?b = "uint (BytesSent (Statistics (heap m ! p)))"
  let ?t1 = "sent_total m xs p"
  let ?t2 = "sent_total (run m xs) ys p"
  let ?t3 = "sent_total (run m (xs @ ys)) zs p"
  have t1: "0 \<le> ?t1" and t2: "0 \<le> ?t2" and t3: "0 \<le> ?t3"
    using okx oky okz by (simp_all only: sent_total_nonneg)
  have total: "sent_total m cs p = ?t1 + ?t2 + ?t3"
    unfolding cs by (simp add: sent_total_append run_append)
  have xy: "sent_total m (xs @ ys) p = ?t1 + ?t2"
    by (simp add: sent_total_append)
  have "uint (BytesSent (Statistics (heap (run m xs) ! p))) = ?b + ?t1"
    unfolding run_sent [OF p] using t1 t2 t3 nc total by (intro uint_add_no_wrap) simp_all
  moreover have "uint (BytesSent (Statistics (heap (run m (xs @ ys)) ! p))) = ?b + (?t1 + ?t2)"
    unfolding run_sent [OF p] xy using t1 t2 t3 nc total by (intro uint_add_no_wrap) simp_all
  ultimately show ?thesis
    unfolding tk xs_def [symmetric] using t2 by (simp add: word_le_def)
qed

lemma Write_keeps_session:
  assumes "ValidateSession m pname sid = Inr p" "port (heap m ! p) = Some h"
  shows "ValidateSession (snd (Write m pname sid data n None now)) pname sid = Inr p
         \<and> port (heap (snd (Write m pname sid data n None now)) ! p) = Some h
         \<and> fst (Write m pname sid data n None now) = (n, None)"
  using assms
  by (auto simp: Write_def ValidateSession_def session_at_def upd_session_def
      split: option.splits if_splits)

lemma run_replicate_Write:
  assumes "ValidateSession m pname sid = Inr p" "port (heap m ! p) = Some h"
  shows "sent_total m (replicate k (CallWrite pname sid data n None now)) p = int k * n"
  using assms
proof (induction k arbitrary: m)
  case 0
  show ?case by simp
next
  case (Suc k)
  let ?m' = "snd (Write m pname sid data n None now)"
  from Write_keeps_session [OF Suc.prems, of data n now]
  have v: "ValidateSession ?m' pname sid = Inr p" "port (heap ?m' ! p) = Some h"
    and r: "fst (Write m pname sid data n None now) = (n, None)" by simp_all
  from Suc.IH [OF v] have "sent_total ?m' (replicate k (CallWrite pname sid data n None now)) p
      = int k * n" .
  with r Suc.prems show ?case by (simp add: algebra_simps)
qed

text \<open>
  C4 (as the claim states it, refuted): \<^verbatim>\<open>BytesSent\<close> is a \<^verbatim>\<open>uint64\<close>.  Client \<open>a\<close> opens
  \<open>COM3\<close> and writes 4 GiB \<open>2^32\<close> times; the driver accepts every write in full, so
  each count is a Go \<^verbatim>\<open>int\<close> between 0 and \<^verbatim>\<open>len(data)\<close> and the successful counts add up
  to \<open>2^64\<close>.  Before the last write \<^verbatim>\<open>BytesSent\<close> is \<open>2^64 - 2^32\<close>, after it 0: the
  counter went down, and it is not the sum of the counts.
\<close>

theorem C4_BytesSent_wraps:
  "io_ok write_4GiB
   \<and> sent_total m_one_open (replicate four_GiB write_4GiB) 0 = 18446744073709551616
   \<and> BytesSent (Statistics (heap (run m_one_open (replicate (four_GiB - 1) write_4GiB)) ! 0))
       = 18446744069414584320
   \<and> BytesSent (Statistics (heap (run m_one_open (replicate four_GiB write_4GiB)) ! 0)) = 0
   \<and> BytesSent (Statistics (heap (run m_one_open (replicate four_GiB write_4GiB)) ! 0))
       < BytesSent (Statistics (heap (run m_one_open (replicate (four_GiB - 1) write_4GiB)) ! 0))"
proof -
  have ok: "io_ok write_4GiB" by (simp add: write_4GiB_def)
  have p: "0 < length (heap m_one_open)" by (simp add: m_one_open_eq)
  have v: "ValidateSession m_one_open ''COM3'' ''id-1'' = Inr 0"
    "port (heap m_one_open ! 0) = Some 7"
    by (simp_all add: m_one_open_eq ValidateSession_def session_at_def)
  have z: "BytesSent (Statistics (heap m_one_open ! 0)) = 0" by (simp add: m_one_open_eq)
  have t: "sent_total m_one_open (replicate k write_4GiB) 0 = int k * int four_GiB" for k
    unfolding write_4GiB_def by (rule run_replicate_Write [OF v])
  have a: "int four_GiB * int four_GiB = 18446744073709551616"
    "int (four_GiB - 1) * int four_GiB = 18446744069414584320"
    by (simp_all add: four_GiB_def)
  have total: "sent_total m_one_open (replicate four_GiB write_4GiB) 0 = 18446744073709551616"
    by (simp only: t a)
  have w: "(word_of_int 18446744073709551616 :: 64 word) = 0"
    "(word_of_int 18446744069414584320 :: 64 word) = 18446744069414584320"
    "(0 :: 64 word) < 18446744069414584320"
    by simp_all
  have before: "BytesSent (Statistics (heap (run m_one_open (replicate (four_GiB - 1) write_4GiB)) ! 0))
       = 18446744069414584320"
    unfolding run_sent [OF p] z t a w by (rule add_0)
  have after: "BytesSent (Statistics (heap (run m_one_open (replicate four_GiB write_4GiB)) ! 0)) = 0"
    unfolding run_sent [OF p] z t a w by (rule add_0)
  from w(3) have less: "BytesSent (Statistics (heap (run m_one_open (replicate four_GiB write_4GiB)) ! 0))
       < BytesSent (Statistics (heap (run m_one_open (replicate (four_GiB - 1) write_4GiB)) ! 0))"
    unfolding before after .
  from ok total before after less show ?thesis by (intro conjI)
qed

text \<open>
  C4 (amended): for a session \<open>p\<close>, a \<^verbatim>\<open>Write\<close> whose driver write returns no error returns
  the driver's count \<open>n\<close> and adds \<^verbatim>\<open>uint64(n)\<close> to \<^verbatim>\<open>BytesSent\<close> in 64-bit arithmetic,
  leaving \<^verbatim>\<open>Errors\<close> alone; a \<^verbatim>\<open>Write\<close> whose driver write fails returns an error, leaves
  \<^verbatim>\<open>BytesSent\<close> alone and adds one to \<^verbatim>\<open>Errors\<close>.  No other call changes \<^verbatim>\<open>BytesSent\<close>: after
  any call it is the old value plus the count of that call if it was a \<^verbatim>\<open>Write\<close> on \<open>p\<close>
  that returned without error.  So after any run \<^verbatim>\<open>BytesSent\<close> is the value before plus
  the sum of the successful write counts modulo \<open>2^64\<close>.  When every driver write of the
  run reports a count from 0 to \<^verbatim>\<open>len(data)\<close> and the value before plus that sum does not
  exceed \<open>2^64 - 1\<close>, the counter has grown by exactly the sum and it never decreases
  along the run: its value after the first \<open>j\<close> calls is at most its value after the
  first \<open>k\<close> calls, for \<open>j \<le> k\<close>.
\<close>

theorem C4_BytesSent_counts_writes:
  assumes p: "p < length (heap m)"
  shows
    "(ValidateSession m pname sid = Inr p \<and> port (heap m ! p) = Some h \<longrightarrow>
        fst (Write m pname sid data n None now) = (n, None)
        \<and> BytesSent (Statistics (heap (snd (Write m pname sid data n None now)) ! p))
            = BytesSent (Statistics (heap m ! p)) + word_of_int n
        \<and> Errors (Statistics (heap (snd (Write m pname sid data n None now)) ! p))
            = Errors (Statistics (heap m ! p))
        \<and> snd (fst (Write m pname sid data n (Some msg) now)) \<noteq> None
        \<and> BytesSent (Statistics (heap (snd (Write m pname sid data n (Some msg) now)) ! p))
            = BytesSent (Statistics (heap m ! p))
        \<and> Errors (Statistics (heap (snd (Write m pname sid data n (Some msg) now)) ! p))
            = Errors (Statistics (heap m ! p)) + 1)
     \<and> BytesSent (Statistics (heap (step m c) ! p))
         = BytesSent (Statistics (heap m ! p)) + word_of_int (sent_by m c p)
     \<and> BytesSent (Statistics (heap (run m cs) ! p))
         = BytesSent (Statistics (heap m ! p)) + word_of_int (sent_total m cs p)
     \<and> ((\<forall>c\<in>set cs. io_ok c)
          \<and> uint (BytesSent (Statistics (heap m ! p))) + sent_total m cs p < 2 ^ 64 \<longrightarrow>
        uint (BytesSent (Statistics (heap (run m cs) ! p)))
          = uint (BytesSent (Statistics (heap m ! p))) + sent_total m cs p
        \<and> (\<forall>j k. j \<le> k \<longrightarrow>
              BytesSent (Statistics (heap (run m (take j cs)) ! p))
                \<le> BytesSent (Statistics (heap (run m (take k cs)) ! p))))"
proof -
  have one: "fst (Write m pname sid data n None now) = (n, None)
        \<and> BytesSent (Statistics (heap (snd (Write m pname sid data n None now)) ! p))
            = BytesSent (Statistics (heap m ! p)) + word_of_int n
        \<and> Errors (Statistics (heap (snd (Write m pname sid data n None now)) ! p))
            = Errors (Statistics (heap m ! p))
        \<and> snd (fst (Write m pname sid data n (Some msg) now)) \<noteq> None
        \<and> BytesSent (Statistics (heap (snd (Write m pname sid data n (Some msg) now)) ! p))
            = BytesSent (Statistics (heap m ! p))
        \<and> Errors (Statistics (heap (snd (Write m pname sid data n (Some msg) now)) ! p))
            = Errors (Statistics (heap m ! p)) + 1"
    if "ValidateSession m pname sid = Inr p" "port (heap m ! p) = Some h"
    using that p by (simp add: Write_def heap_upd_session)
  have wrap_free: "uint (BytesSent (Statistics (heap (run m cs) ! p)))
          = uint (BytesSent (Statistics (heap m ! p))) + sent_total m cs p"
    if "\<forall>c\<in>set cs. io_ok c"
      "uint (BytesSent (Statistics (heap m ! p))) + sent_total m cs p < 2 ^ 64"
    unfolding run_sent [OF p] using sent_total_nonneg [OF that(1)] that(2)
    by (rule uint_add_no_wrap)
  have mono: "BytesSent (Statistics (heap (run m (take j cs)) ! p))
                \<le> BytesSent (Statistics (heap (run m (take k cs)) ! p))"
    if "\<forall>c\<in>set cs. io_ok c"
      "uint (BytesSent (Statistics (heap m ! p))) + sent_total m cs p < 2 ^ 64" "j \<le> k" for j k
    using p that by (rule run_sent_mono)
  from one step_sent [OF p, of c] run_sent [OF p, of cs] wrap_free mono
  show ?thesis by blast
qed

theorem C4_BytesSent_counts_writes_witness:
  "fst (Write m_one_open ''COM3'' ''id-1'' [72, 73] 2 None 30) = (2, None)
   \<and> BytesSent (Statistics (heap (snd (Write m_one_open ''COM3'' ''id-1'' [72, 73] 2 None 30)) ! 0)) = 2
   \<and> BytesSent (Statistics (heap (snd (Write m_one_open ''COM3'' ''id-1'' [72, 73] 0 (Some ''io'') 30)) ! 0)) = 0
   \<and> Errors (Statistics (heap (snd (Write m_one_open ''COM3'' ''id-1'' [72, 73] 0 (Some ''io'') 30)) ! 0)) = 1
   \<and> uint (BytesSent (Statistics (heap (run m_one_open
        [CallWrite ''COM3'' ''id-1'' [72, 73] 2 None 30,
         CallWrite ''COM3'' ''id-1'' [74] 0 (Some ''io'') 31,
         CallRead ''COM3'' ''id-1'' 16 [72] None 32,
         CallWrite ''COM3'' ''id-1'' [75, 76, 77] 3 None 33]) ! 0))) = 5
   \<and> BytesSent (Statistics (heap (run m_one_open
        [CallWrite ''COM3'' ''id-1'' [72, 73] 2 None 30]) ! 0))
       \<le> BytesSent (Statistics (heap (run m_one_open
        [CallWrite ''COM3'' ''id-1'' [72, 73] 2 None 30,
         CallWrite ''COM3'' ''id-1'' [74] 0 (Some ''io'') 31,
         CallRead ''COM3'' ''id-1'' 16 [72] None 32,
         CallWrite ''COM3'' ''id-1'' [75, 76, 77] 3 None 33]) ! 0))"
proof -
  let ?cs = "[CallWrite ''COM3'' ''id-1'' [72, 73] 2 None 30,
         CallWrite ''COM3'' ''id-1'' [74] 0 (Some ''io'') 31,
         CallRead ''COM3'' ''id-1'' 16 [72] None 32,
         CallWrite ''COM3'' ''id-1'' [75, 76, 77] 3 None 33]"
  have p: "0 < length (heap m_one_open)" by (simp add: m_one_open_eq)
  have v: "ValidateSession m_one_open ''COM3'' ''id-1'' = Inr 0 \<and> port (heap m_one_open ! 0) = Some 7"
    by (simp add: m_one_open_eq ValidateSession_def session_at_def)
  have z: "BytesSent (Statistics (heap m_one_open ! 0)) = 0"
    "Errors (Statistics (heap m_one_open ! 0)) = 0"
    by (simp_all add: m_one_open_eq)
  have total: "sent_total m_one_open ?cs 0 = 5"
    by (simp add: m_one_open_eq Write_def Read_def ValidateSession_def session_at_def
        upd_session_def Let_def)
  have ok: "\<forall>c\<in>set ?cs. io_ok c" by simp
  have tk: "take 1 ?cs = [CallWrite ''COM3'' ''id-1'' [72, 73] 2 None 30]" "take 4 ?cs = ?cs"
    by simp_all
  from C4_BytesSent_counts_writes [OF p, where pname = "''COM3''" and sid = "''id-1''"
      and h = 7 and data = "[72, 73]" and n = 2 and now = 30 and msg = "''io''" and cs = ?cs] v ok
  have w: "fst (Write m_one_open ''COM3'' ''id-1'' [72, 73] 2 None 30) = (2, None)"
    "BytesSent (Statistics (heap (snd (Write m_one_open ''COM3'' ''id-1'' [72, 73] 2 None 30)) ! 0)) = 2"
    and r: "uint (BytesSent (Statistics (heap (run m_one_open ?cs) ! 0))) = 5"
    and mn: "\<forall>j k. j \<le> k \<longrightarrow>
              BytesSent (Statistics (heap (run m_one_open (take j ?cs)) ! 0))
                \<le> BytesSent (Statistics (heap (run m_one_open (take k ?cs)) ! 0))"
    unfolding z total by simp_all
  have le: "(1::nat) \<le> 4" by simp
  from mn [rule_format, OF le] have m1: "BytesSent (Statistics (heap (run m_one_open
        [CallWrite ''COM3'' ''id-1'' [72, 73] 2 None 30]) ! 0))
       \<le> BytesSent (Statistics (heap (run m_one_open ?cs) ! 0))"
    unfolding tk .
  from C4_BytesSent_counts_writes [OF p, where pname = "''COM3''" and sid = "''id-1''"
      and h = 7 and data = "[72, 73]" and n = 0 and now = 30 and msg = "''io''"] v
  have e: "BytesSent (Statistics (heap (snd (Write m_one_open ''COM3'' ''id-1'' [72, 73] 0 (Some ''io'') 30)) ! 0)) = 0"
    "Errors (Statistics (heap (snd (Write m_one_open ''COM3'' ''id-1'' [72, 73] 0 (Some ''io'') 30)) ! 0)) = 1"
    unfolding z by simp_all
  from w r e m1 show ?thesis by blast
qed


subsection \<open>Port type detection\<close>

lemma has_substring_iff: "has_substring lit s \<longleftrightarrow> contains lit s"
proof (induction s)
  case Nil
  show ?case by (simp add: contains_def)
next
  case (Cons c cs)
  have "contains lit (c # cs) \<longleftrightarrow> prefix lit (c # cs) \<or> contains lit cs"
  proof
    assume "contains lit (c # cs)"
    then obtain a b where ab: "c # cs = a @ lit @ b" unfolding contains_def by blast
    show "prefix lit (c # cs) \<or> contains lit cs"
    proof (cases a)
      case Nil
      with ab show ?thesis by (simp add: prefix_def)
    next
      case (Cons x a')
      with ab have "cs = a' @ lit @ b" by simp
      then show ?thesis unfolding contains_def by blast
    qed
  next
    assume "prefix lit (c # cs) \<or> contains lit cs"
    then show "contains lit (c # cs)"
    proof
      assume "prefix lit (c # cs)"
      then obtain b where "c # cs = [] @ lit @ b" by (auto simp: prefix_def)
      then show ?thesis unfolding contains_def by blast
    next
      assume "contains lit cs"
      then obtain a b where "cs = a @ lit @ b" unfolding contains_def by blast
      then have "c # cs = (c # a) @ lit @ b" by simp
      then show ?thesis unfolding contains_def by blast
    qed
  qed
  with Cons show ?case by simp
qed

lemma has_substring_lower_iff:
  "has_substring lit (map ascii_lower s) \<longleftrightarrow> contains_nocase lit s"
proof -
  have "contains lit (map ascii_lower s) \<longleftrightarrow> contains_nocase lit s"
  proof
    assume "contains lit (map ascii_lower s)"
    then obtain a b where "map ascii_lower s = a @ lit @ b" unfolding contains_def by blast
    then have "\<exists>us vs. s = us @ vs \<and> a = map ascii_lower us \<and> lit @ b = map ascii_lower vs"
      by (simp only: map_eq_append_conv)
    then obtain us vs where uv: "s = us @ vs" "lit @ b = map ascii_lower vs" by blast
    from uv(2) have "\<exists>w b'. vs = w @ b' \<and> lit = map ascii_lower w \<and> b = map ascii_lower b'"
      by (simp only: append_eq_map_conv)
    then obtain w b' where "vs = w @ b'" "lit = map ascii_lower w" by blast
    with uv(1) have "s = us @ w @ b'" "map ascii_lower w = lit" by simp_all
    then show "contains_nocase lit s" unfolding contains_nocase_def by blast
  next
    assume "contains_nocase lit s"
    then obtain a w b where "s = a @ w @ b" "map ascii_lower w = lit"
      unfolding contains_nocase_def by blast
    then have "map ascii_lower s = map ascii_lower a @ lit @ map ascii_lower b" by simp
    then show "contains lit (map ascii_lower s)" unfolding contains_def by blast
  qed
  then show ?thesis by (simp add: has_substring_iff)
qed

lemma dot_star_then_iff:
  "dot_star_then lit s \<longleftrightarrow> (\<exists>mid b. s = mid @ lit @ b \<and> CHR 0x0A \<notin> set mid)"
proof (induction s)
  case Nil
  show ?case by auto
next
  case (Cons c cs)
  have "(\<exists>mid b. c # cs = mid @ lit @ b \<and> CHR 0x0A \<notin> set mid) \<longleftrightarrow>
        prefix lit (c # cs) \<or> (c \<noteq> CHR 0x0A \<and> (\<exists>mid b. cs = mid @ lit @ b \<and> CHR 0x0A \<notin> set mid))"
  proof
    assume "\<exists>mid b. c # cs = mid @ lit @ b \<and> CHR 0x0A \<notin> set mid"
    then obtain mid b where mb: "c # cs = mid @ lit @ b" "CHR 0x0A \<notin> set mid" by blast
    show "prefix lit (c # cs) \<or> (c \<noteq> CHR 0x0A \<and> (\<exists>mid b. cs = mid @ lit @ b \<and> CHR 0x0A \<notin> set mid))"
    proof (cases mid)
      case Nil
      with mb show ?thesis by (simp add: prefix_def)
    next
      case (Cons x mid')
      with mb have "cs = mid' @ lit @ b" "c \<noteq> CHR 0x0A" "CHR 0x0A \<notin> set mid'" by auto
      then show ?thesis by blast
    qed
  next
    assume "prefix lit (c # cs) \<or> (c \<noteq> CHR 0x0A \<and> (\<exists>mid b. cs = mid @ lit @ b \<and> CHR 0x0A \<notin> set mid))"
    then show "\<exists>mid b. c # cs = mid @ lit @ b \<and> CHR 0x0A \<notin> set mid"
    proof
      assume "prefix lit (c # cs)"
      then obtain b where "c # cs = [] @ lit @ b \<and> CHR 0x0A \<notin> set ([] :: string)"
        by (auto simp: prefix_def)
      then show ?thesis by blast
    next
      assume "c \<noteq> CHR 0x0A \<and> (\<exists>mid b. cs = mid @ lit @ b \<and> CHR 0x0A \<notin> set mid)"
      then obtain mid b where "cs = mid @ lit @ b" "CHR 0x0A \<notin> set mid" "c \<noteq> CHR 0x0A"
        by blast
      then have "c # cs = (c # mid) @ lit @ b \<and> CHR 0x0A \<notin> set (c # mid)" by simp
      then show ?thesis by blast
    qed
  qed
  with Cons show ?case by simp
qed

lemma match_darwin_bluetooth_iff:
  "match_darwin_bluetooth s \<longleftrightarrow>
     (\<exists>a mid b. s = a @ ''/dev/'' @ mid @ ''Bluetooth'' @ b \<and> CHR 0x0A \<notin> set mid)"
proof (induction s)
  case Nil
  show ?case by simp
next
  case (Cons c cs)
  let ?P = "\<lambda>s. \<exists>a mid b. s = a @ ''/dev/'' @ mid @ ''Bluetooth'' @ b \<and> CHR 0x0A \<notin> set mid"
  have here: "prefix ''/dev/'' (c # cs) \<and> dot_star_then ''Bluetooth'' (drop 5 (c # cs)) \<longleftrightarrow>
        (\<exists>mid b. c # cs = ''/dev/'' @ mid @ ''Bluetooth'' @ b \<and> CHR 0x0A \<notin> set mid)"
  proof
    assume l: "prefix ''/dev/'' (c # cs) \<and> dot_star_then ''Bluetooth'' (drop 5 (c # cs))"
    then obtain r where r: "c # cs = ''/dev/'' @ r" by (auto simp: prefix_def)
    then have "drop 5 (c # cs) = r" by simp
    with l obtain mid b where "r = mid @ ''Bluetooth'' @ b" "CHR 0x0A \<notin> set mid"
      unfolding dot_star_then_iff by auto
    with r show "\<exists>mid b. c # cs = ''/dev/'' @ mid @ ''Bluetooth'' @ b \<and> CHR 0x0A \<notin> set mid"
      by blast
  next
    assume "\<exists>mid b. c # cs = ''/dev/'' @ mid @ ''Bluetooth'' @ b \<and> CHR 0x0A \<notin> set mid"
    then obtain mid b where mb: "c # cs = ''/dev/'' @ mid @ ''Bluetooth'' @ b"
      "CHR 0x0A \<notin> set mid" by blast
    then have "prefix ''/dev/'' (c # cs)" "drop 5 (c # cs) = mid @ ''Bluetooth'' @ b"
      by (simp_all add: prefix_def)
    with mb(2) show "prefix ''/dev/'' (c # cs) \<and> dot_star_then ''Bluetooth'' (drop 5 (c # cs))"
      unfolding dot_star_then_iff by auto
  qed
  have "?P (c # cs) \<longleftrightarrow>
      (\<exists>mid b. c # cs = ''/dev/'' @ mid @ ''Bluetooth'' @ b \<and> CHR 0x0A \<notin> set mid) \<or> ?P cs"
  proof
    assume "?P (c # cs)"
    then obtain a mid b where amb: "c # cs = a @ ''/dev/'' @ mid @ ''Bluetooth'' @ b"
      "CHR 0x0A \<notin> set mid" by blast
    show "(\<exists>mid b. c # cs = ''/dev/'' @ mid @ ''Bluetooth'' @ b \<and> CHR 0x0A \<notin> set mid) \<or> ?P cs"
    proof (cases a)
      case Nil
      with amb show ?thesis by auto
    next
      case (Cons x a')
      with amb have "cs = a' @ ''/dev/'' @ mid @ ''Bluetooth'' @ b" by simp
      with amb(2) show ?thesis by blast
    qed
  next
    assume "(\<exists>mid b. c # cs = ''/dev/'' @ mid @ ''Bluetooth'' @ b \<and> CHR 0x0A \<notin> set mid) \<or> ?P cs"
    then show "?P (c # cs)"
    proof
      assume "\<exists>mid b. c # cs = ''/dev/'' @ mid @ ''Bluetooth'' @ b \<and> CHR 0x0A \<notin> set mid"
      then obtain mid b where "c # cs = [] @ ''/dev/'' @ mid @ ''Bluetooth'' @ b"
        "CHR 0x0A \<notin> set mid" by auto
      then show ?thesis by blast
    next
      assume "?P cs"
      then obtain a mid b where "cs = a @ ''/dev/'' @ mid @ ''Bluetooth'' @ b"
        "CHR 0x0A \<notin> set mid" by blast
      then have "c # cs = (c # a) @ ''/dev/'' @ mid @ ''Bluetooth'' @ b" by simp
      with \<open>CHR 0x0A \<notin> set mid\<close> show ?thesis by blast
    qed
  qed
  with here Cons show ?case by simp
qed


lemma detectPortType_classify:
  "detectPortType goos details = classify code_bluetooth_name goos details"
proof -
  have w: "match_windows_bluetooth n \<longleftrightarrow>
             contains_nocase ''bluetooth'' n \<or> contains_nocase ''bth'' n" for n
    by (simp only: match_windows_bluetooth_def has_substring_lower_iff)
  have l: "match_linux_bluetooth n \<longleftrightarrow> contains ''/dev/rfcomm'' n" for n
    by (simp only: match_linux_bluetooth_def has_substring_iff)
  have v: "match_linux_virtual n \<longleftrightarrow> contains ''/dev/pts/'' n \<or> contains ''/dev/pty'' n" for n
    by (simp only: match_linux_virtual_def has_substring_iff)
  have os: "''windows'' \<noteq> ''linux''" "''windows'' \<noteq> ''darwin''" "''linux'' \<noteq> ''darwin''"
    by simp_all
  show ?thesis
    unfolding detectPortType_def classify_def code_bluetooth_name_def spec_virtual_name_def
      w l v match_darwin_bluetooth_iff
    using os by (cases "goos = ''windows''"; cases "goos = ''linux''"; cases "goos = ''darwin''")
      (simp_all only: if_True if_False simp_thms)
qed


lemma ascii_lower_map_examples:
  "map ascii_lower ''/dev/rfcomm0'' = ''/dev/rfcomm0''"
  "map ascii_lower ''/dev/pts/3'' = ''/dev/pts/3''"
  "map ascii_lower ''/dev/ttyS0'' = ''/dev/ttys0''"
  "map ascii_lower ''COM7'' = ''com7''"
  "map ascii_lower ''Standard Serial over Bluetooth link'' = ''standard serial over bluetooth link''"
  by (simp_all add: ascii_lower_def)

lemma device_path_bluetooth:
  assumes "device_path name"
  shows "(\<exists>a mid b. name = a @ ''/dev/'' @ mid @ ''Bluetooth'' @ b \<and> CHR 0x0A \<notin> set mid)
           \<longleftrightarrow> contains ''Bluetooth'' name"
proof
  assume "\<exists>a mid b. name = a @ ''/dev/'' @ mid @ ''Bluetooth'' @ b \<and> CHR 0x0A \<notin> set mid"
  then obtain a mid b where "name = (a @ ''/dev/'' @ mid) @ ''Bluetooth'' @ b" by auto
  then show "contains ''Bluetooth'' name" unfolding contains_def by blast
next
  assume "contains ''Bluetooth'' name"
  then obtain x y where xy: "name = x @ ''Bluetooth'' @ y" unfolding contains_def by blast
  from assms obtain r where r: "name = ''/dev/'' @ r" and nl: "CHR 0x0A \<notin> set name"
    unfolding device_path_def prefix_def by blast
  from xy r have "''/dev/'' @ r = x @ (''Bluetooth'' @ y)" by simp
  then obtain us where
    "''/dev/'' = x @ us \<and> us @ r = ''Bluetooth'' @ y
     \<or> ''/dev/'' @ us = x \<and> r = us @ ''Bluetooth'' @ y"
    unfolding append_eq_append_conv2 by blast
  then show "\<exists>a mid b. name = a @ ''/dev/'' @ mid @ ''Bluetooth'' @ b \<and> CHR 0x0A \<notin> set mid"
  proof
    assume c: "''/dev/'' = x @ us \<and> us @ r = ''Bluetooth'' @ y"
    show ?thesis
    proof (cases us)
      case Nil
      with c r have "name = [] @ ''/dev/'' @ [] @ ''Bluetooth'' @ y \<and> CHR 0x0A \<notin> set ([] :: string)"
        by simp
      then show ?thesis by blast
    next
      case (Cons u us')
      with c have "u = CHR ''B''" by simp
      moreover from c Cons have "u \<in> set ''/dev/''" by (metis in_set_conv_decomp)
      ultimately have "CHR ''B'' \<in> set ''/dev/''" by simp
      then show ?thesis by simp
    qed
  next
    assume c: "''/dev/'' @ us = x \<and> r = us @ ''Bluetooth'' @ y"
    with r have n: "name = [] @ ''/dev/'' @ us @ ''Bluetooth'' @ y" by simp
    with nl have "CHR 0x0A \<notin> set us" by auto
    with n show ?thesis by blast
  qed
qed

lemma enumerated_bluetooth_name:
  assumes "enumerated goos details"
  shows "code_bluetooth_name goos (Name details) = spec_bluetooth_name goos (Name details)"
proof (cases "goos = ''darwin''")
  case True
  with assms have "device_path (Name details)" by (simp add: enumerated_def)
  from device_path_bluetooth [OF this] True show ?thesis
    unfolding code_bluetooth_name_def spec_bluetooth_name_def by simp
next
  case False
  then show ?thesis unfolding code_bluetooth_name_def spec_bluetooth_name_def by simp
qed

text \<open>
  The pattern of the code on macOS is \<^verbatim>\<open>/dev/.*Bluetooth\<close>: a name with \<open>Bluetooth\<close> in it
  but no \<^verbatim>\<open>/dev/\<close> before it, which is not a device path, is not matched.
\<close>

lemma detectPortType_darwin_not_device_path:
  "\<not> device_path ''Bluetooth-Modem''
   \<and> detectPortType ''darwin'' (port_named ''Bluetooth-Modem'' False) = PortTypeNative"
  by (simp add: device_path_def detectPortType_def port_named_def)

text \<open>
  C6: for every port that the enumerator yields, \<^verbatim>\<open>detectPortType\<close> returns USB when the
  driver marks the port as USB; otherwise BLUETOOTH when the name matches the pattern of
  the operating system (on Windows \<open>bluetooth\<close> or \<open>bth\<close> in any case, on Linux
  \<open>/dev/rfcomm\<close>, on macOS \<open>Bluetooth\<close> in the name); otherwise VIRTUAL on Linux when the
  name contains \<open>/dev/pts/\<close> or \<open>/dev/pty\<close>; otherwise NATIVE.  \<open>COM7\<close> with the USB
  flag is USB whatever the system, \<open>/dev/rfcomm0\<close> is BLUETOOTH and \<open>/dev/pts/3\<close> is
  VIRTUAL where such ports exist (on Linux), and plain \<open>/dev/ttyS0\<close> is NATIVE whatever
  the system.
\<close>

theorem C6_detectPortType_classification:
  assumes "enumerated goos details"
  shows
    "detectPortType goos details = classify spec_bluetooth_name goos details
     \<and> detectPortType goos (port_named ''COM7'' True) = PortTypeUSB
     \<and> detectPortType ''linux'' (port_named ''/dev/rfcomm0'' False) = PortTypeBluetooth
     \<and> detectPortType ''linux'' (port_named ''/dev/pts/3'' False) = PortTypeVirtual
     \<and> detectPortType goos (port_named ''/dev/ttyS0'' False) = PortTypeNative"
proof -
  have cls: "detectPortType goos details = classify spec_bluetooth_name goos details"
    unfolding detectPortType_classify classify_def enumerated_bluetooth_name [OF assms] ..
  have usb: "detectPortType goos (port_named ''COM7'' True) = PortTypeUSB"
    by (simp add: detectPortType_def port_named_def)
  have bt: "detectPortType ''linux'' (port_named ''/dev/rfcomm0'' False) = PortTypeBluetooth"
    by (simp add: detectPortType_def port_named_def match_linux_bluetooth_def)
  have vt: "detectPortType ''linux'' (port_named ''/dev/pts/3'' False) = PortTypeVirtual"
    by (simp add: detectPortType_def port_named_def match_linux_bluetooth_def
        match_linux_virtual_def)
  have nomatch: "\<not> match_windows_bluetooth ''/dev/ttyS0''" "\<not> match_linux_bluetooth ''/dev/ttyS0''"
    "\<not> match_darwin_bluetooth ''/dev/ttyS0''" "\<not> match_linux_virtual ''/dev/ttyS0''"
    unfolding match_windows_bluetooth_def match_linux_bluetooth_def
        match_linux_virtual_def ascii_lower_map_examples by simp_all
  have nat: "detectPortType goos (port_named ''/dev/ttyS0'' False) = PortTypeNative"
    by (simp add: detectPortType_def port_named_def nomatch)
  from cls usb bt vt nat show ?thesis by blast
qed

theorem C6_detectPortType_classification_witness:
  "device_path ''/dev/cu.Bluetooth-Incoming-Port''
   \<and> detectPortType ''darwin'' (port_named ''/dev/cu.Bluetooth-Incoming-Port'' False)
       = classify spec_bluetooth_name ''darwin'' (port_named ''/dev/cu.Bluetooth-Incoming-Port'' False)
   \<and> detectPortType ''darwin'' (port_named ''/dev/cu.Bluetooth-Incoming-Port'' False)
       = PortTypeBluetooth
   \<and> detectPortType ''windows'' (port_named ''COM7'' True) = PortTypeUSB
   \<and> detectPortType ''linux'' (port_named ''/dev/ttyS0'' False) = PortTypeNative"
proof -
  have d: "device_path ''/dev/cu.Bluetooth-Incoming-Port''"
    by (simp add: device_path_def)
  then have e: "enumerated ''darwin'' (port_named ''/dev/cu.Bluetooth-Incoming-Port'' False)"
    by (simp add: enumerated_def port_named_def)
  have l: "enumerated ''linux'' (port_named ''/dev/ttyS0'' False)"
    by (simp add: enumerated_def)
  have w: "enumerated ''windows'' (port_named ''COM7'' True)"
    by (simp add: enumerated_def)
  have b: "detectPortType ''darwin'' (port_named ''/dev/cu.Bluetooth-Incoming-Port'' False)
       = PortTypeBluetooth"
    by (simp add: detectPortType_def port_named_def)
  from C6_detectPortType_classification [OF e] C6_detectPortType_classification [OF l]
    C6_detectPortType_classification [OF w] d b
  show ?thesis by blast
qed

subsection \<open>Starting, stopping and subscribing to a reader\<close>

lemma Stop_not_running: "\<not> running (snd (Stop r))"
  by (simp add: Stop_def Let_def split: prod.split bool.split)

lemma r_started_eq:
  "r_started =
     \<lparr>portName = ''COM3'', sessionID = ''id-1'', bufferSize = 1024, running = True,
      stopChan = 1, subscribers = [], stop_closed = [False, False], event_chans = [],
      loops_spawned = 1\<rparr>"
  by (simp add: r_started_def Start_def NewReader_def m_one_open_eq ValidateSession_def
      session_at_def)

lemma Stop_r_started:
  "Stop r_started =
     (None,
      \<lparr>portName = ''COM3'', sessionID = ''id-1'', bufferSize = 1024, running = False,
       stopChan = 1, subscribers = [], stop_closed = [False, True], event_chans = [],
       loops_spawned = 1\<rparr>)"
  by (simp add: r_started_eq Stop_def Let_def)

text \<open>
  C7 (as the claim states it, refuted): on the reader of \<open>r_started\<close>, after \<^verbatim>\<open>Stop\<close> a
  call of \<^verbatim>\<open>Subscribe\<close> returns channel 0, which is open, and leaves it in the subscriber
  list, which was empty after \<^verbatim>\<open>Stop\<close>: the call is not a no-op and the channel is not
  closed.
\<close>

theorem C7_subscribe_after_stop_is_open:
  "running r_started \<and> \<not> running (snd (Stop r_started))
   \<and> subscribers (snd (Stop r_started)) = []
   \<and> fst (Subscribe (snd (Stop r_started))) = 0
   \<and> subscribers (snd (Subscribe (snd (Stop r_started)))) = [0]
   \<and> \<not> chan_closed (event_chans (snd (Subscribe (snd (Stop r_started)))) ! 0)"
  unfolding Stop_r_started
  by (simp add: r_started_eq Subscribe_def Let_def make_chan_def)

text \<open>
  C7 (amended): \<^verbatim>\<open>Stop\<close> is idempotent: a second \<^verbatim>\<open>Stop\<close> returns at once and leaves the
  reader as the first one left it.  \<^verbatim>\<open>Start\<close> on a running reader returns \<^verbatim>\<open>nil\<close> and
  changes nothing; no read loop is spawned.  \<^verbatim>\<open>Subscribe\<close> does not look at whether the
  reader runs: after \<^verbatim>\<open>Stop\<close>, as before, it makes a new open channel of capacity 100,
  appends it to the subscriber list and returns it.
\<close>

theorem C7_Stop_Start_Subscribe:
  "Stop (snd (Stop r)) = (None, snd (Stop r))
   \<and> (running r \<longrightarrow> Start r m = (None, r))
   \<and> Subscribe (snd (Stop r)) =
       (length (event_chans (snd (Stop r))),
        (snd (Stop r))
          \<lparr>event_chans := event_chans (snd (Stop r)) @ [make_chan 100],
           subscribers := subscribers (snd (Stop r)) @ [length (event_chans (snd (Stop r)))]\<rparr>)
   \<and> fst (Subscribe (snd (Stop r))) \<in> set (subscribers (snd (Subscribe (snd (Stop r)))))
   \<and> event_chans (snd (Subscribe (snd (Stop r)))) ! fst (Subscribe (snd (Stop r)))
       = \<lparr>chan_buf = [], chan_cap = 100, chan_closed = False\<rparr>"
proof -
  have idem: "Stop (snd (Stop r)) = (None, snd (Stop r))"
    using Stop_not_running [of r] by (simp add: Stop_def [of "snd (Stop r)"])
  have start: "running r \<longrightarrow> Start r m = (None, r)"
    by (simp add: Start_def)
  have sub: "Subscribe r' =
       (length (event_chans r'),
        r'\<lparr>event_chans := event_chans r' @ [make_chan 100],
           subscribers := subscribers r' @ [length (event_chans r')]\<rparr>)
     \<and> fst (Subscribe r') \<in> set (subscribers (snd (Subscribe r')))
     \<and> event_chans (snd (Subscribe r')) ! fst (Subscribe r')
         = \<lparr>chan_buf = [], chan_cap = 100, chan_closed = False\<rparr>" for r'
    by (simp add: Subscribe_def Let_def make_chan_def)
  from idem start sub [of "snd (Stop r)"] show ?thesis by blast
qed

theorem C7_Stop_Start_Subscribe_witness:
  "Stop (snd (Stop r_started)) = (None, snd (Stop r_started))
   \<and> Start r_started m_one_open = (None, r_started)
   \<and> loops_spawned (snd (Start r_started m_one_open)) = 1
   \<and> fst (Subscribe (snd (Stop r_started))) = 0"
proof -
  have run: "running r_started" by (simp add: r_started_eq)
  have len: "length (event_chans (snd (Stop r_started))) = 0"
    unfolding Stop_r_started by simp
  from C7_Stop_Start_Subscribe [of r_started m_one_open] run
  have a: "Stop (snd (Stop r_started)) = (None, snd (Stop r_started))"
    and b: "Start r_started m_one_open = (None, r_started)"
    and c: "fst (Subscribe (snd (Stop r_started))) = length (event_chans (snd (Stop r_started)))"
    by simp_all
  have d: "loops_spawned (snd (Start r_started m_one_open)) = 1"
    unfolding b by (simp add: r_started_eq)
  from a b c d len show ?thesis by simp
qed


subsection \<open>Sequence numbers and order of delivery\<close>

lemma close_chans_bufs:
  "close_chans cs subs = (cs', ok) \<Longrightarrow>
   length cs' = length cs \<and> (\<forall>c<length cs. chan_buf (cs' ! c) = chan_buf (cs ! c))"
proof (induction subs arbitrary: cs)
  case Nil
  then show ?case by simp
next
  case (Cons c rest)
  show ?case
  proof (cases "c < length cs \<and> \<not> chan_closed (cs ! c)")
    case True
    let ?cs1 = "cs[c := (cs ! c)\<lparr>chan_closed := True\<rparr>]"
    from True Cons.prems have "close_chans ?cs1 rest = (cs', ok)" by simp
    from Cons.IH [OF this] True show ?thesis by (auto simp: nth_list_update)
  next
    case False
    with Cons.prems show ?thesis by auto
  qed
qed

lemma try_send_all_bufs:
  "distinct subs \<Longrightarrow> try_send_all cs subs v = (cs', ok) \<Longrightarrow>
   length cs' = length cs
   \<and> (\<forall>c<length cs. chan_buf (cs' ! c) = chan_buf (cs ! c)
         \<or> (c \<in> set subs \<and> chan_buf (cs' ! c) = chan_buf (cs ! c) @ [v]))"
proof (induction subs arbitrary: cs)
  case Nil
  then show ?case by simp
next
  case (Cons c rest)
  from Cons.prems have d: "c \<notin> set rest" "distinct rest" by simp_all
  show ?case
  proof (cases "c < length cs")
    case False
    with Cons.prems have "try_send_all cs rest v = (cs', ok)" by simp
    from Cons.IH [OF d(2) this] show ?thesis by auto
  next
    case True
    show ?thesis
    proof (cases "chan_closed (cs ! c)")
      case True
      with \<open>c < length cs\<close> Cons.prems show ?thesis by simp
    next
      case open_c: False
      show ?thesis
      proof (cases "length (chan_buf (cs ! c)) < chan_cap (cs ! c)")
        case False
        with open_c True Cons.prems have "try_send_all cs rest v = (cs', ok)" by simp
        from Cons.IH [OF d(2) this] show ?thesis by auto
      next
        case room: True
        let ?cs1 = "cs[c := (cs ! c)\<lparr>chan_buf := chan_buf (cs ! c) @ [v]\<rparr>]"
        from room open_c True Cons.prems have "try_send_all ?cs1 rest v = (cs', ok)" by simp
        from Cons.IH [OF d(2) this]
        have len: "length cs' = length cs"
          and bufs: "\<forall>e<length cs. chan_buf (cs' ! e) = chan_buf (?cs1 ! e)
                 \<or> (e \<in> set rest \<and> chan_buf (cs' ! e) = chan_buf (?cs1 ! e) @ [v])"
          by simp_all
        have "chan_buf (cs' ! e) = chan_buf (cs ! e)
                \<or> (e \<in> set (c # rest) \<and> chan_buf (cs' ! e) = chan_buf (cs ! e) @ [v])"
          if e: "e < length cs" for e
        proof (cases "e = c")
          case True
          with bufs e d(1) have "chan_buf (cs' ! e) = chan_buf (?cs1 ! e)" by blast
          with True e show ?thesis by simp
        next
          case False
          with bufs e show ?thesis by (auto simp: nth_list_update)
        qed
        with len show ?thesis by blast
      qed
    qed
  qed
qed

lemma fan_inv_of_reader:
  assumes "fan_inv_of q0 q log rcv r"
    and "distinct (subscribers r')"
    and "\<forall>c\<in>set (subscribers r'). c < length (event_chans r')"
    and "\<forall>c. queued r' c = queued r c"
  shows "fan_inv_of q0 q log rcv r'"
  using assms by (simp add: fan_inv_of_def)

lemma Stop_keeps:
  "length (event_chans (snd (Stop r))) = length (event_chans r)
   \<and> (\<forall>c. queued (snd (Stop r)) c = queued r c)
   \<and> (subscribers (snd (Stop r)) = [] \<or> subscribers (snd (Stop r)) = subscribers r)"
proof (cases "running r \<and> stopChan r < length (stop_closed r)")
  case False
  then show ?thesis by (auto simp: Stop_def Let_def queued_def)
next
  case True
  let ?r2 = "r\<lparr>running := False, stop_closed := (stop_closed r)[stopChan r := True]\<rparr>"
  obtain cs ok where c: "close_chans (event_chans r) (subscribers r) = (cs, ok)"
    by (cases "close_chans (event_chans r) (subscribers r)")
  from close_chans_bufs [OF c]
  have k: "length cs = length (event_chans r)"
    "\<forall>c<length (event_chans r). chan_buf (cs ! c) = chan_buf (event_chans r ! c)"
    by simp_all
  from True c k show ?thesis
    by (cases ok) (simp_all add: Stop_def Let_def queued_def)
qed

lemma fan_inv_of_Stop:
  assumes "fan_inv_of q0 q log rcv r"
  shows "fan_inv_of q0 q log rcv (snd (Stop r))"
proof (rule fan_inv_of_reader [OF assms])
  from assms have r: "distinct (subscribers r)"
    "\<forall>c\<in>set (subscribers r). c < length (event_chans r)"
    by (simp_all add: fan_inv_of_def)
  from Stop_keeps [of r] r show "distinct (subscribers (snd (Stop r)))" by auto
  from Stop_keeps [of r] r
  show "\<forall>c\<in>set (subscribers (snd (Stop r))). c < length (event_chans (snd (Stop r)))"
    by auto
  from Stop_keeps [of r] show "\<forall>c. queued (snd (Stop r)) c = queued r c" by blast
qed

lemma fan_inv_of_broadcast:
  assumes inv: "fan_inv_of q0 q log rcv r"
    and b: "broadcast r ev = (r', ok)"
    and sq: "Sequence ev = q + 1"
  shows "fan_inv_of q0 (q + 1) (log @ [ev]) rcv r'"
proof -
  from inv have q: "q = of_nat (length log)"
    and nums: "\<forall>i<length log. Sequence (log ! i) = of_nat (Suc i)"
    and dist: "distinct (subscribers r)"
    and bound: "\<forall>c\<in>set (subscribers r). c < length (event_chans r)"
    and sub: "\<forall>c. \<exists>new. rcv c @ queued r c = q0 c @ new \<and> subseq new log"
    by (simp_all add: fan_inv_of_def)
  obtain cs where cs: "try_send_all (event_chans r) (subscribers r) ev = (cs, ok)"
    and r': "r' = r\<lparr>event_chans := cs\<rparr>"
    using b by (auto simp: broadcast_def split: prod.splits)
  from try_send_all_bufs [OF dist cs]
  have len: "length cs = length (event_chans r)"
    and bufs: "\<forall>c<length (event_chans r). chan_buf (cs ! c) = chan_buf (event_chans r ! c)
                 \<or> chan_buf (cs ! c) = chan_buf (event_chans r ! c) @ [ev]"
    by auto
  have q': "q + 1 = of_nat (length (log @ [ev]))" using q by simp
  have nums': "\<forall>i<length (log @ [ev]). Sequence ((log @ [ev]) ! i) = of_nat (Suc i)"
  proof (intro allI impI)
    fix i assume "i < length (log @ [ev])"
    then consider "i < length log" | "i = length log" by fastforce
    then show "Sequence ((log @ [ev]) ! i) = of_nat (Suc i)"
    proof cases
      case 1
      with nums show ?thesis by (simp add: nth_append)
    next
      case 2
      with sq q show ?thesis by simp
    qed
  qed
  have sub': "\<exists>new. rcv c @ queued r' c = q0 c @ new \<and> subseq new (log @ [ev])" for c
  proof -
    from sub obtain new where new: "rcv c @ queued r c = q0 c @ new" "subseq new log"
      by blast
    from bufs len r' have "queued r' c = queued r c \<or> queued r' c = queued r c @ [ev]"
      by (auto simp: queued_def)
    then show ?thesis
    proof
      assume "queued r' c = queued r c"
      with new have "rcv c @ queued r' c = q0 c @ new" "subseq new (log @ [ev])"
        by (simp_all add: subseq_rev_drop_many del: subseq_append)
      then show ?thesis by blast
    next
      assume "queued r' c = queued r c @ [ev]"
      with new(1) have "rcv c @ queued r' c = q0 c @ (new @ [ev])"
        by (metis append_assoc)
      moreover have "subseq (new @ [ev]) (log @ [ev])"
        using new(2) by (intro list_emb_append_mono) simp_all
      ultimately show ?thesis by blast
    qed
  qed
  from q' nums' dist bound sub' len r' show ?thesis
    by (simp add: fan_inv_of_def)
qed


lemma fan_inv_Pass:
  assumes inv: "fan_inv q0 s"
  shows "fan_inv q0 (readLoop_pass s env)"
proof -
  let ?r = "fo_reader s"
  obtain res m' where "Read (fo_manager s) (portName ?r) (sessionID ?r) (bufferSize ?r)
        (line_input env) (read_err env) (read_now env) = (res, m')"
    by (cases "Read (fo_manager s) (portName ?r) (sessionID ?r) (bufferSize ?r)
        (line_input env) (read_err env) (read_now env)")
  moreover obtain data err where "res = (data, err)" by (cases res)
  ultimately have rd: "Read (fo_manager s) (portName ?r) (sessionID ?r) (bufferSize ?r)
        (line_input env) (read_err env) (read_now env) = ((data, err), m')"
    by simp
  let ?ev = "\<lparr>Data = data, Timestamp = event_now env, Sequence = fo_sequence s + 1,
              Error = err\<rparr>"
  obtain r' ok where b: "broadcast ?r ?ev = (r', ok)" by (cases "broadcast ?r ?ev")
  from inv have i0: "fan_inv_of q0 (fo_sequence s) (broadcast_log s) (received s) ?r"
    by (simp add: fan_inv_def)
  from fan_inv_of_broadcast [OF i0 b]
  have i1: "fan_inv_of q0 (fo_sequence s + 1) (broadcast_log s @ [?ev]) (received s) r'"
    by simp
  note i2 = fan_inv_of_Stop [OF i0] fan_inv_of_Stop [OF i1]
  show ?thesis
    using i0 i1 i2 by (simp add: readLoop_pass_def Let_def fan_inv_def rd b)
qed

lemma fan_inv_Take:
  assumes inv: "fan_inv q0 s"
  shows "fan_inv q0 (act s (Take ch))"
proof (cases "ch < length (event_chans (fo_reader s))
              \<and> chan_buf (event_chans (fo_reader s) ! ch) \<noteq> []")
  case False
  with inv show ?thesis by (auto simp: Let_def)
next
  case True
  let ?r = "fo_reader s"
  let ?cs = "event_chans ?r"
  let ?r' = "?r\<lparr>event_chans := chan_recv ?cs ch\<rparr>"
  let ?rcv = "(received s)(ch := received s ch @ [hd (chan_buf (?cs ! ch))])"
  from inv have i0: "fan_inv_of q0 (fo_sequence s) (broadcast_log s) (received s) ?r"
    by (simp add: fan_inv_def)
  have same: "?rcv c @ queued ?r' c = received s c @ queued ?r c" for c
    using True by (auto simp: queued_def chan_recv_def nth_list_update)
  from i0 have "fan_inv_of q0 (fo_sequence s) (broadcast_log s) ?rcv ?r'"
    unfolding fan_inv_of_def same by (simp add: chan_recv_def)
  with True show ?thesis by (simp add: fan_inv_def Let_def)
qed

lemma fan_inv_Subscribe:
  assumes inv: "fan_inv q0 s"
  shows "fan_inv q0 (act s DoSubscribe)"
proof -
  let ?r = "fo_reader s"
  from inv have i0: "fan_inv_of q0 (fo_sequence s) (broadcast_log s) (received s) ?r"
    by (simp add: fan_inv_def)
  then have r: "distinct (subscribers ?r)"
    "\<forall>c\<in>set (subscribers ?r). c < length (event_chans ?r)"
    by (simp_all add: fan_inv_of_def)
  have "fan_inv_of q0 (fo_sequence s) (broadcast_log s) (received s) (snd (Subscribe ?r))"
  proof (rule fan_inv_of_reader [OF i0])
    show "distinct (subscribers (snd (Subscribe ?r)))"
      using r by (auto simp: Subscribe_def Let_def)
    show "\<forall>c\<in>set (subscribers (snd (Subscribe ?r))). c < length (event_chans (snd (Subscribe ?r)))"
      using r by (auto simp: Subscribe_def Let_def)
    show "\<forall>c. queued (snd (Subscribe ?r)) c = queued ?r c"
      by (auto simp: Subscribe_def Let_def queued_def nth_append make_chan_def)
  qed
  then show ?thesis by (simp add: fan_inv_def)
qed

lemma fan_inv_Unsubscribe:
  assumes inv: "fan_inv q0 s"
  shows "fan_inv q0 (act s (DoUnsubscribe ch))"
proof -
  let ?r = "fo_reader s"
  from inv have i0: "fan_inv_of q0 (fo_sequence s) (broadcast_log s) (received s) ?r"
    by (simp add: fan_inv_def)
  then have r: "distinct (subscribers ?r)"
    "\<forall>c\<in>set (subscribers ?r). c < length (event_chans ?r)"
    by (simp_all add: fan_inv_of_def)
  obtain cs ok where c: "close_chans (event_chans ?r) [ch] = (cs, ok)"
    by (cases "close_chans (event_chans ?r) [ch]")
  from close_chans_bufs [OF c]
  have k: "length cs = length (event_chans ?r)"
    "\<forall>c<length (event_chans ?r). chan_buf (cs ! c) = chan_buf (event_chans ?r ! c)"
    by simp_all
  have "fan_inv_of q0 (fo_sequence s) (broadcast_log s) (received s) (snd (Unsubscribe ?r ch))"
  proof (rule fan_inv_of_reader [OF i0])
    show "distinct (subscribers (snd (Unsubscribe ?r ch)))"
      using r c by (cases ok) (auto simp: Unsubscribe_def)
    show "\<forall>c\<in>set (subscribers (snd (Unsubscribe ?r ch))).
            c < length (event_chans (snd (Unsubscribe ?r ch)))"
      using r c k by (cases ok) (auto simp: Unsubscribe_def dest: notin_set_remove1)
    show "\<forall>c. queued (snd (Unsubscribe ?r ch)) c = queued ?r c"
      using c k by (cases ok) (auto simp: Unsubscribe_def queued_def)
  qed
  then show ?thesis by (simp add: fan_inv_def)
qed

lemma fan_inv_act: "fan_inv q0 s \<Longrightarrow> fan_inv q0 (act s a)"
proof (cases a)
  case (Pass env)
  assume "fan_inv q0 s"
  with Pass show ?thesis by (simp add: fan_inv_Pass)
next
  case (Take ch)
  assume "fan_inv q0 s"
  with Take show ?thesis by (simp only: fan_inv_Take)
next
  case DoSubscribe
  assume "fan_inv q0 s"
  with DoSubscribe show ?thesis by (simp only: fan_inv_Subscribe)
next
  case (DoUnsubscribe ch)
  assume "fan_inv q0 s"
  with DoUnsubscribe show ?thesis by (simp only: fan_inv_Unsubscribe)
next
  case DoStop
  assume "fan_inv q0 s"
  then have "fan_inv_of q0 (fo_sequence s) (broadcast_log s) (received s) (snd (Stop (fo_reader s)))"
    by (simp add: fan_inv_def fan_inv_of_Stop)
  with DoStop show ?thesis by (simp add: fan_inv_def)
next
  case (ManagerCall c)
  assume "fan_inv q0 s"
  with ManagerCall show ?thesis by (simp add: fan_inv_def)
qed

lemma fan_inv_acts: "fan_inv q0 s \<Longrightarrow> fan_inv q0 (acts s as)"
  by (induction as arbitrary: s) (simp_all add: fan_inv_act)

lemma fan_inv_loop_start:
  assumes "distinct (subscribers r)"
    and "\<forall>c\<in>set (subscribers r). c < length (event_chans r)"
  shows "fan_inv (queued r) (loop_start m r)"
  using assms by (simp add: fan_inv_def fan_inv_of_def loop_start_def)


lemma readLoop_pass_grows:
  "prefix (broadcast_log s) (broadcast_log (readLoop_pass s env))
   \<and> received (readLoop_pass s env) = received s"
  by (simp add: readLoop_pass_def Let_def split: prod.split)

lemma act_grows:
  "prefix (broadcast_log s) (broadcast_log (act s a))
   \<and> (\<forall>c. prefix (received s c) (received (act s a) c))"
  by (cases a) (simp_all add: readLoop_pass_grows Let_def)

lemma acts_grows:
  "prefix (broadcast_log s) (broadcast_log (acts s as))
   \<and> (\<forall>c. prefix (received s c) (received (acts s as) c))"
proof (induction as arbitrary: s)
  case Nil
  show ?case by simp
next
  case (Cons a as)
  from act_grows [of s a] Cons [of "act s a"] show ?case
    by (auto intro: prefix_order.trans)
qed

lemma acts_append: "acts s (as @ bs) = acts (acts s as) bs"
  by (induction as arbitrary: s) simp_all

text \<open>
  C8: in a run of the read loop, whatever the passes of the loop, the receives, the
  calls of \<^verbatim>\<open>Subscribe\<close>, \<^verbatim>\<open>Unsubscribe\<close> and \<^verbatim>\<open>Stop\<close> and the calls of the manager are:
  the first event broadcast carries sequence number 1 and every later one the number
  of the event before it plus one, in \<^verbatim>\<open>uint32\<close> arithmetic; the events a subscriber has
  received from its channel, followed by those still queued in it, are the events
  that were queued in the channel when the loop started (none, for a reader started
  once) followed by a subsequence of the events broadcast, in broadcast order (an
  event dropped for a full channel is missing, none is out of order); and as the run
  goes on, the list of events broadcast and the list of events a subscriber has
  received only grow at the end.  The reader starts with a subscriber list without
  repetition and without \<^verbatim>\<open>nil\<close> channels, as \<^verbatim>\<open>Subscribe\<close>, \<^verbatim>\<open>Unsubscribe\<close> and \<^verbatim>\<open>Stop\<close>
  keep it.
\<close>

theorem C8_sequence_numbers_and_order:
  assumes "distinct (subscribers r)"
    and "\<forall>c\<in>set (subscribers r). c < length (event_chans r)"
  shows
    "(broadcast_log (acts (loop_start m r) as) \<noteq> [] \<longrightarrow>
        Sequence (broadcast_log (acts (loop_start m r) as) ! 0) = 1)
     \<and> (\<forall>i. Suc i < length (broadcast_log (acts (loop_start m r) as)) \<longrightarrow>
          Sequence (broadcast_log (acts (loop_start m r) as) ! Suc i)
            = Sequence (broadcast_log (acts (loop_start m r) as) ! i) + 1)
     \<and> (\<forall>c. \<exists>new. received (acts (loop_start m r) as) c
                      @ queued (fo_reader (acts (loop_start m r) as)) c
                    = queued r c @ new
                 \<and> subseq new (broadcast_log (acts (loop_start m r) as)))
     \<and> prefix (broadcast_log (acts (loop_start m r) as))
              (broadcast_log (acts (loop_start m r) (as @ bs)))
     \<and> (\<forall>c. prefix (received (acts (loop_start m r) as) c)
                   (received (acts (loop_start m r) (as @ bs)) c))"
proof -
  let ?s = "acts (loop_start m r) as"
  from fan_inv_acts [OF fan_inv_loop_start [OF assms], of m as]
  have nums: "\<forall>i<length (broadcast_log ?s). Sequence (broadcast_log ?s ! i) = of_nat (Suc i)"
    and sub: "\<forall>c. \<exists>new. received ?s c @ queued (fo_reader ?s) c = queued r c @ new
                 \<and> subseq new (broadcast_log ?s)"
    by (simp_all add: fan_inv_def fan_inv_of_def)
  have first: "broadcast_log ?s \<noteq> [] \<longrightarrow> Sequence (broadcast_log ?s ! 0) = 1"
    using nums by auto
  have "Sequence (broadcast_log ?s ! Suc i) = Sequence (broadcast_log ?s ! i) + 1"
    if "Suc i < length (broadcast_log ?s)" for i
  proof -
    from that nums have "Sequence (broadcast_log ?s ! Suc i) = of_nat (Suc (Suc i))"
      "Sequence (broadcast_log ?s ! i) = of_nat (Suc i)" by simp_all
    then show ?thesis by simp
  qed
  then have next_one: "\<forall>i. Suc i < length (broadcast_log ?s) \<longrightarrow>
      Sequence (broadcast_log ?s ! Suc i) = Sequence (broadcast_log ?s ! i) + 1"
    by blast
  from acts_grows [of ?s bs]
  have grow: "prefix (broadcast_log ?s) (broadcast_log (acts (loop_start m r) (as @ bs)))"
    "\<forall>c. prefix (received ?s c) (received (acts (loop_start m r) (as @ bs)) c)"
    by (simp_all add: acts_append)
  from first next_one sub grow show ?thesis by blast
qed

lemma r_subscribed_eq:
  "r_subscribed =
     \<lparr>portName = ''COM3'', sessionID = ''id-1'', bufferSize = 1024, running = True,
      stopChan = 1, subscribers = [0], stop_closed = [False, False],
      event_chans = [\<lparr>chan_buf = [], chan_cap = 100, chan_closed = False\<rparr>],
      loops_spawned = 1\<rparr>"
  by (simp add: r_subscribed_def r_started_eq Subscribe_def Let_def make_chan_def)

lemma two_reads_run:
  "broadcast_log (acts (loop_start m_one_open r_subscribed) two_reads) =
     [\<lparr>Data = [72, 73], Timestamp = 41, Sequence = 1, Error = None\<rparr>,
      \<lparr>Data = [74], Timestamp = 51, Sequence = 2, Error = None\<rparr>]
   \<and> received (acts (loop_start m_one_open r_subscribed) two_reads) 0 =
     [\<lparr>Data = [72, 73], Timestamp = 41, Sequence = 1, Error = None\<rparr>]
   \<and> queued (fo_reader (acts (loop_start m_one_open r_subscribed) two_reads)) 0 =
     [\<lparr>Data = [74], Timestamp = 51, Sequence = 2, Error = None\<rparr>]"
  by (simp add: two_reads_def loop_start_def r_subscribed_eq m_one_open_eq readLoop_pass_def
      Read_def ValidateSession_def session_at_def upd_session_def broadcast_def Let_def
      chan_recv_def queued_def)

theorem C8_sequence_numbers_and_order_witness:
  "Sequence (broadcast_log (acts (loop_start m_one_open r_subscribed) two_reads) ! 0) = 1
   \<and> Sequence (broadcast_log (acts (loop_start m_one_open r_subscribed) two_reads) ! 1) = 2
   \<and> subseq
       (received (acts (loop_start m_one_open r_subscribed) two_reads) 0
          @ queued (fo_reader (acts (loop_start m_one_open r_subscribed) two_reads)) 0)
       (broadcast_log (acts (loop_start m_one_open r_subscribed) two_reads))"
proof -
  have a: "distinct (subscribers r_subscribed)" by (simp add: r_subscribed_eq)
  have b: "\<forall>c\<in>set (subscribers r_subscribed). c < length (event_chans r_subscribed)"
    by (simp add: r_subscribed_eq)
  have c: "queued r_subscribed 0 = []" by (simp add: r_subscribed_eq queued_def)
  let ?log = "broadcast_log (acts (loop_start m_one_open r_subscribed) two_reads)"
  have len: "?log \<noteq> []" "Suc 0 < length ?log" using two_reads_run by simp_all
  from C8_sequence_numbers_and_order [OF a b, of m_one_open two_reads "[]"] len
  have "Sequence (?log ! 0) = 1" "Sequence (?log ! Suc 0) = Sequence (?log ! 0) + 1"
    and "\<exists>new. received (acts (loop_start m_one_open r_subscribed) two_reads) 0
          @ queued (fo_reader (acts (loop_start m_one_open r_subscribed) two_reads)) 0
          = queued r_subscribed 0 @ new \<and> subseq new ?log"
    by blast+
  then show ?thesis unfolding c by auto
qed

lemma before_start_channels:
  assumes "distinct (subscribers r)"
    and "\<forall>c\<in>set (subscribers r). c < length (event_chans r)"
    and "\<forall>c<length (event_chans r). chan_buf (event_chans r ! c) = []"
  shows "distinct (subscribers (before_start r cs))
    \<and> (\<forall>c\<in>set (subscribers (before_start r cs)). c < length (event_chans (before_start r cs)))
    \<and> (\<forall>c<length (event_chans (before_start r cs)).
          chan_buf (event_chans (before_start r cs) ! c) = [])"
  using assms
proof (induction r cs rule: before_start.induct)
  case (1 r)
  then show ?case by simp
next
  case (2 r cs)
  show ?case
    unfolding before_start.simps
  proof (rule "2.IH")
    show "distinct (subscribers (snd (Subscribe r)))"
      using "2.prems" by (auto simp: Subscribe_def Let_def)
    show "\<forall>c\<in>set (subscribers (snd (Subscribe r))). c < length (event_chans (snd (Subscribe r)))"
      using "2.prems" by (auto simp: Subscribe_def Let_def)
    show "\<forall>c<length (event_chans (snd (Subscribe r))).
            chan_buf (event_chans (snd (Subscribe r)) ! c) = []"
      using "2.prems" by (auto simp: Subscribe_def Let_def nth_append make_chan_def)
  qed
next
  case (3 r ch cs)
  obtain cs' ok where c: "close_chans (event_chans r) [ch] = (cs', ok)"
    by (cases "close_chans (event_chans r) [ch]")
  from close_chans_bufs [OF c]
  have k: "length cs' = length (event_chans r)"
    "\<forall>c<length (event_chans r). chan_buf (cs' ! c) = chan_buf (event_chans r ! c)"
    by simp_all
  show ?case
    unfolding before_start.simps
  proof (rule "3.IH")
    show "distinct (subscribers (snd (Unsubscribe r ch)))"
      using "3.prems" c by (cases ok) (auto simp: Unsubscribe_def)
    show "\<forall>c\<in>set (subscribers (snd (Unsubscribe r ch))).
            c < length (event_chans (snd (Unsubscribe r ch)))"
      using "3.prems" c k by (cases ok) (auto simp: Unsubscribe_def dest: notin_set_remove1)
    show "\<forall>c<length (event_chans (snd (Unsubscribe r ch))).
            chan_buf (event_chans (snd (Unsubscribe r ch)) ! c) = []"
      using "3.prems" c k by (cases ok) (auto simp: Unsubscribe_def)
  qed
qed

text \<open>
  A reader made by \<^verbatim>\<open>NewReader\<close> and started after any calls of \<^verbatim>\<open>Subscribe\<close> and
  \<^verbatim>\<open>Unsubscribe\<close> starts its loop with subscriber channels that are distinct, exist and
  are empty.
\<close>

lemma first_start_channels_empty:
  "distinct (subscribers (snd (Start (before_start (NewReader pn sd n) cs) m)))
   \<and> (\<forall>c\<in>set (subscribers (snd (Start (before_start (NewReader pn sd n) cs) m))).
         c < length (event_chans (snd (Start (before_start (NewReader pn sd n) cs) m))))
   \<and> (\<forall>c<length (event_chans (snd (Start (before_start (NewReader pn sd n) cs) m))).
         chan_buf (event_chans (snd (Start (before_start (NewReader pn sd n) cs) m)) ! c) = [])"
proof -
  have "distinct (subscribers (NewReader pn sd n))"
    "\<forall>c\<in>set (subscribers (NewReader pn sd n)). c < length (event_chans (NewReader pn sd n))"
    "\<forall>c<length (event_chans (NewReader pn sd n)).
        chan_buf (event_chans (NewReader pn sd n) ! c) = []"
    by (simp_all add: NewReader_def)
  from before_start_channels [OF this, of cs]
  show ?thesis by (simp add: Start_def split: sum.split)
qed

subsection \<open>The timeout of a single read\<close>





end
